theory Spec2Isabelle
  imports Complex_Main
begin

section \<open>Strings of code points\<close>

text \<open>
  A Python \<open>str\<close> is a sequence of Unicode code points. It is modelled as a list of
  natural numbers, one per code point; \<open>asc\<close> embeds an ASCII literal.
\<close>

type_synonym cp = nat
type_synonym pystr = "cp list"

definition asc :: "string \<Rightarrow> pystr" where
  "asc s = map of_char s"

text \<open>
  The white space of \<open>str.strip()\<close>, \<open>str.isspace()\<close> and of \<open>\s\<close> in a \<open>str\<close>
  pattern is the same finite set of code points (CPython's \<open>Py_UNICODE_ISSPACE\<close>):
  U+0009..U+000D, U+001C..U+0020, U+0085, U+00A0, U+1680, U+2000..U+200A, U+2028,
  U+2029, U+202F, U+205F and U+3000.
\<close>

definition is_space :: "cp \<Rightarrow> bool" where
  "is_space c \<longleftrightarrow>
     (9 \<le> c \<and> c \<le> 13) \<or> (28 \<le> c \<and> c \<le> 32) \<or> c = 133 \<or> c = 160 \<or> c = 5760 \<or>
     (8192 \<le> c \<and> c \<le> 8202) \<or> c = 8232 \<or> c = 8233 \<or> c = 8239 \<or> c = 8287 \<or> c = 12288"

text \<open>
  The remaining character properties the program consults (alphanumeric, decimal digit,
  lower, upper and title case, and the upper-case mapping) are tables of the Python
  runtime. On ASCII they are written out; beyond ASCII they are a parameter \<open>db\<close> of
  the model, so that every theorem holds for whatever the tables of the runtime are.
\<close>

record ucd =
  uc_alnum :: "cp \<Rightarrow> bool"
  uc_decimal :: "cp \<Rightarrow> bool"
  uc_islower :: "cp \<Rightarrow> bool"
  uc_isupper :: "cp \<Rightarrow> bool"
  uc_istitle :: "cp \<Rightarrow> bool"
  uc_toupper :: "cp \<Rightarrow> pystr"

definition is_decimal :: "ucd \<Rightarrow> cp \<Rightarrow> bool" where
  "is_decimal db c = (if c < 128 then 48 \<le> c \<and> c \<le> 57 else uc_decimal db c)"

definition is_alnum :: "ucd \<Rightarrow> cp \<Rightarrow> bool" where
  "is_alnum db c =
     (if c < 128 then (48 \<le> c \<and> c \<le> 57) \<or> (65 \<le> c \<and> c \<le> 90) \<or> (97 \<le> c \<and> c \<le> 122)
      else uc_alnum db c)"

definition is_word :: "ucd \<Rightarrow> cp \<Rightarrow> bool" where
  "is_word db c \<longleftrightarrow> is_alnum db c \<or> c = 95"

definition cp_islower :: "ucd \<Rightarrow> cp \<Rightarrow> bool" where
  "cp_islower db c = (if c < 128 then 97 \<le> c \<and> c \<le> 122 else uc_islower db c)"

definition cp_isupper :: "ucd \<Rightarrow> cp \<Rightarrow> bool" where
  "cp_isupper db c = (if c < 128 then 65 \<le> c \<and> c \<le> 90 else uc_isupper db c)"

definition cp_istitle :: "ucd \<Rightarrow> cp \<Rightarrow> bool" where
  "cp_istitle db c = (if c < 128 then False else uc_istitle db c)"

definition cp_upper :: "ucd \<Rightarrow> cp \<Rightarrow> pystr" where
  "cp_upper db c =
     (if c < 128 then (if 97 \<le> c \<and> c \<le> 122 then [c - 32] else [c]) else uc_toupper db c)"

text \<open>\<open>str.upper()\<close> maps every code point on its own.\<close>

definition py_upper :: "ucd \<Rightarrow> pystr \<Rightarrow> pystr" where
  "py_upper db s = concat (map (cp_upper db) s)"

text \<open>
  \<open>str.isupper()\<close>: no code point is lower or title case and at least one is upper
  case; a string of one code point is upper case when that code point is.
\<close>

definition py_isupper :: "ucd \<Rightarrow> pystr \<Rightarrow> bool" where
  "py_isupper db s =
     (case s of
        [c] \<Rightarrow> cp_isupper db c
      | _ \<Rightarrow> list_all (\<lambda>c. \<not> cp_islower db c \<and> \<not> cp_istitle db c) s \<and> list_ex (cp_isupper db) s)"

text \<open>\<open>str.strip()\<close> without argument removes leading and trailing white space.\<close>

definition py_strip :: "pystr \<Rightarrow> pystr" where
  "py_strip s = rev (dropWhile is_space (rev (dropWhile is_space s)))"

text \<open>
  \<open>str.splitlines()\<close>: the line boundaries are \<open>\n\<close>, \<open>\r\<close>, \<open>\r\n\<close>, \<open>\v\<close>, \<open>\f\<close>,
  U+001C, U+001D, U+001E, U+0085, U+2028 and U+2029; the boundaries are dropped and a
  string that ends with one has no empty last line.
\<close>

definition is_linebreak :: "cp \<Rightarrow> bool" where
  "is_linebreak c \<longleftrightarrow> (10 \<le> c \<and> c \<le> 13) \<or> (28 \<le> c \<and> c \<le> 30) \<or> c = 133 \<or> c = 8232 \<or> c = 8233"

fun splitlines_from :: "pystr \<Rightarrow> pystr \<Rightarrow> pystr list" where
  "splitlines_from cur [] = (if cur = [] then [] else [cur])"
| "splitlines_from cur (c # s) =
     (if c = 13 \<and> s \<noteq> [] \<and> hd s = 10 then cur # splitlines_from [] (tl s)
      else if is_linebreak c then cur # splitlines_from [] s
      else splitlines_from (cur @ [c]) s)"

definition splitlines :: "pystr \<Rightarrow> pystr list" where
  "splitlines s = splitlines_from [] s"

text \<open>\<open>sep.join(parts)\<close>.\<close>

fun py_join :: "pystr \<Rightarrow> pystr list \<Rightarrow> pystr" where
  "py_join sep [] = []"
| "py_join sep [p] = p"
| "py_join sep (p # q # ps) = p @ sep @ py_join sep (q # ps)"

section \<open>The fragment of Python's \<open>re\<close> the program uses\<close>

text \<open>
  The patterns of the program are sequences of quantified single-character classes,
  with unnested capturing groups and \<open>$\<close>. A pattern is a list of tokens; \<open>Rep cs lo hi\<close>
  is the set \<open>cs\<close> repeated greedily at least \<open>lo\<close> and at most \<open>hi\<close> times (\<open>None\<close>: no
  upper bound).
\<close>

datatype cls = Chr cp | Rng cp cp | Digit | Word | Space

datatype tok = Open | Close | Dollar | Rep "cls list" nat "nat option"

record regex =
  rx_toks :: "tok list"
  rx_icase :: bool
  rx_mline :: bool

text \<open>
  With \<open>re.IGNORECASE\<close> a \<open>str\<close> pattern compares letters by their lower case; for the
  ASCII letters of a pattern this also matches the four code points U+0130, U+0131
  (both like \<open>i\<close>), U+017F (like \<open>s\<close>) and U+212A (like \<open>k\<close>), as the documentation of
  \<open>re\<close> says. The patterns compiled with this flag have ASCII literals only.
\<close>

definition ci_fold :: "cp \<Rightarrow> cp" where
  "ci_fold x =
     (if 65 \<le> x \<and> x \<le> 90 then x + 32
      else if x = 304 \<or> x = 305 then 105
      else if x = 383 then 115
      else if x = 8490 then 107
      else x)"

fun in_cls :: "ucd \<Rightarrow> bool \<Rightarrow> cp \<Rightarrow> cls \<Rightarrow> bool" where
  "in_cls db ic x (Chr c) = (if ic then ci_fold x = ci_fold c else x = c)"
| "in_cls db ic x (Rng a b) =
     (if ic then list_ex (\<lambda>c. ci_fold x = ci_fold c) [a..<Suc b] else a \<le> x \<and> x \<le> b)"
| "in_cls db ic x Digit = is_decimal db x"
| "in_cls db ic x Word = is_word db x"
| "in_cls db ic x Space = is_space x"

definition in_set :: "ucd \<Rightarrow> bool \<Rightarrow> cls list \<Rightarrow> cp \<Rightarrow> bool" where
  "in_set db ic cs x = list_ex (in_cls db ic x) cs"

fun first_some :: "('a \<Rightarrow> 'b option) \<Rightarrow> 'a list \<Rightarrow> 'b option" where
  "first_some f [] = None"
| "first_some f (x # xs) = (case f x of Some y \<Rightarrow> Some y | None \<Rightarrow> first_some f xs)"

definition at_dollar :: "bool \<Rightarrow> pystr \<Rightarrow> bool" where
  "at_dollar ml s = (if ml then s = [] \<or> hd s = 10 else s = [] \<or> s = [10])"

text \<open>
  \<open>re_match\<close> matches the tokens at the start of \<open>s\<close> as the backtracking matcher does:
  a repetition first takes as many characters as it can and gives them back one at a
  time while the rest of the pattern fails. \<open>ban\<close> is the matcher's \<open>must_advance\<close>:
  \<open>Some n\<close> refuses a match that leaves \<open>n\<close> characters, that is an empty match. \<open>cur\<close>
  is the text of the group that is open, \<open>caps\<close> the groups closed so far. The result
  is the groups and the unread rest of \<open>s\<close>.
\<close>

primrec re_match ::
  "tok list \<Rightarrow> ucd \<Rightarrow> bool \<Rightarrow> bool \<Rightarrow> nat option \<Rightarrow> pystr option \<Rightarrow> pystr list \<Rightarrow> pystr
     \<Rightarrow> (pystr list \<times> pystr) option" where
  "re_match [] db ic ml ban cur caps s =
     (if ban = Some (length s) then None else Some (caps, s))"
| "re_match (t # ts) db ic ml ban cur caps s =
     (case t of
        Open \<Rightarrow> re_match ts db ic ml ban (Some []) caps s
      | Close \<Rightarrow> re_match ts db ic ml ban None (caps @ [case cur of None \<Rightarrow> [] | Some g \<Rightarrow> g]) s
      | Dollar \<Rightarrow> (if at_dollar ml s then re_match ts db ic ml ban cur caps s else None)
      | Rep cs lo hi \<Rightarrow>
          (let run = length (takeWhile (in_set db ic cs) s);
               kmax = (case hi of None \<Rightarrow> run | Some h \<Rightarrow> min run h)
           in first_some
                (\<lambda>k. re_match ts db ic ml ban (map_option (\<lambda>g. g @ take k s) cur) caps (drop k s))
                (rev [lo..<Suc kmax])))"

text \<open>
  \<open>scan\<close> is the search loop shared by \<open>finditer\<close> and \<open>sub\<close>: it looks for the leftmost
  match from the current position, records it and goes on behind it. After an empty
  match the next attempt at the same position must advance (\<open>ma\<close>). A position where
  nothing matches contributes its character as a \<open>Gap\<close>.
\<close>

datatype piece = Gap cp | Hit pystr "pystr list"

function scan :: "ucd \<Rightarrow> regex \<Rightarrow> bool \<Rightarrow> pystr \<Rightarrow> piece list" where
  "scan db rx ma s =
     (case re_match (rx_toks rx) db (rx_icase rx) (rx_mline rx)
             (if ma then Some (length s) else None) None [] s of
        Some (gs, rest) \<Rightarrow>
          (let n = length s - length rest in
             if 0 < n then Hit (take n s) gs # scan db rx False (drop n s)
             else if ma then [Hit [] gs]
             else Hit [] gs # scan db rx True s)
      | None \<Rightarrow> (case s of [] \<Rightarrow> [] | c # s' \<Rightarrow> Gap c # scan db rx False s'))"
  by pat_completeness auto
termination
  by (relation "measure (\<lambda>(db, rx, ma, s). 2 * length s + (if ma then 0 else 1))") auto

declare scan.simps [simp del]

text \<open>\<open>rx.finditer(s)\<close>: the matches, each with its text and its groups.\<close>

definition finditer :: "ucd \<Rightarrow> regex \<Rightarrow> pystr \<Rightarrow> (pystr \<times> pystr list) list" where
  "finditer db rx s = concat (map (\<lambda>p. case p of Gap c \<Rightarrow> [] | Hit m gs \<Rightarrow> [(m, gs)]) (scan db rx False s))"

text \<open>\<open>m.group(i)\<close> for \<open>i \<ge> 1\<close>; the patterns of the program have the groups they name.\<close>

definition group :: "pystr list \<Rightarrow> nat \<Rightarrow> pystr" where
  "group gs i = (if 0 < i \<and> i \<le> length gs then gs ! (i - 1) else [])"

text \<open>A replacement template is literal text and group references \<open>\i\<close>.\<close>

datatype titem = TLit pystr | TGrp nat

definition expand :: "titem list \<Rightarrow> pystr list \<Rightarrow> pystr" where
  "expand tpl gs = concat (map (\<lambda>t. case t of TLit l \<Rightarrow> l | TGrp i \<Rightarrow> group gs i) tpl)"

text \<open>\<open>re.sub(rx, tpl, s)\<close>: every match is replaced by the expanded template.\<close>

definition re_sub :: "ucd \<Rightarrow> regex \<Rightarrow> titem list \<Rightarrow> pystr \<Rightarrow> pystr" where
  "re_sub db rx tpl s =
     concat (map (\<lambda>p. case p of Gap c \<Rightarrow> [c] | Hit m gs \<Rightarrow> expand tpl gs) (scan db rx False s))"

text \<open>Shorthands for the tokens of the patterns.\<close>

definition lit :: "char \<Rightarrow> tok" where
  "lit c = Rep [Chr (of_char c)] 1 (Some 1)"

definition one_of :: "cls list \<Rightarrow> tok" where
  "one_of cs = Rep cs 1 (Some 1)"

definition opt :: "cls list \<Rightarrow> tok" where
  "opt cs = Rep cs 0 (Some 1)"

definition at_least :: "nat \<Rightarrow> cls list \<Rightarrow> tok" where
  "at_least n cs = Rep cs n None"

definition chrs :: "string \<Rightarrow> cls list" where
  "chrs s = map (\<lambda>c. Chr (of_char c)) s"

section \<open>Accession patterns\<close>

text \<open>
  \<open>PATTERNS\<close>, in the order of the source:
  \<^verbatim>\<open>(PRJ[EDN][A-Z]?\d{4,})\<close>, \<^verbatim>\<open>(GSE\d{4,})\<close>, \<^verbatim>\<open>(GSM\d{4,})\<close> and
  \<^verbatim>\<open>(SAM[END][A-Z]?\d{4,})\<close>; \<open>COMPILED\<close> compiles each with \<open>re.IGNORECASE\<close>.
\<close>

definition PATTERNS :: "(pystr \<times> tok list) list" where
  "PATTERNS =
     [(asc ''ENA Project'',
         [Open, lit CHR ''P'', lit CHR ''R'', lit CHR ''J'', one_of (chrs ''EDN''),
          opt [Rng (of_char CHR ''A'') (of_char CHR ''Z'')], at_least 4 [Digit], Close]),
      (asc ''GEO Series'',
         [Open, lit CHR ''G'', lit CHR ''S'', lit CHR ''E'', at_least 4 [Digit], Close]),
      (asc ''GEO Sample'',
         [Open, lit CHR ''G'', lit CHR ''S'', lit CHR ''M'', at_least 4 [Digit], Close]),
      (asc ''Biosample'',
         [Open, lit CHR ''S'', lit CHR ''A'', lit CHR ''M'', one_of (chrs ''END''),
          opt [Rng (of_char CHR ''A'') (of_char CHR ''Z'')], at_least 4 [Digit], Close])]"

definition COMPILED :: "(pystr \<times> regex) list" where
  "COMPILED =
     map (\<lambda>(name, toks). (name, \<lparr>rx_toks = toks, rx_icase = True, rx_mline = False\<rparr>)) PATTERNS"

section \<open>Title cleaning\<close>

text \<open>
  \<^verbatim>\<open>t = re.sub(r"\s+", " ", t).strip()\<close> and then
  \<^verbatim>\<open>t = re.sub(r"[\s\-<en dash><em dash>:]+$", "", t)\<close>; the en dash is U+2013, the em
  dash U+2014.
\<close>

definition ws_rx :: regex where
  "ws_rx = \<lparr>rx_toks = [at_least 1 [Space]], rx_icase = False, rx_mline = False\<rparr>"

definition trail_cls :: "cls list" where
  "trail_cls = [Space, Chr 45, Chr 8211, Chr 8212, Chr 58]"

definition trail_rx :: regex where
  "trail_rx = \<lparr>rx_toks = [at_least 1 trail_cls, Dollar], rx_icase = False, rx_mline = False\<rparr>"

definition clean_title :: "ucd \<Rightarrow> pystr \<Rightarrow> pystr" where
  "clean_title db t =
     (let t1 = py_strip (re_sub db ws_rx [TLit [32]] t)
      in re_sub db trail_rx [] t1)"

section \<open>Accession extraction\<close>

text \<open>
  \<^verbatim>\<open>text_dehyphen = re.sub(r"(\w)-\n(\w)", r"\1\2", text, flags=re.MULTILINE)\<close>
\<close>

definition dehyphen_rx :: regex where
  "dehyphen_rx =
     \<lparr>rx_toks = [Open, one_of [Word], Close, lit CHR ''-'', one_of [Chr 10],
                 Open, one_of [Word], Close],
      rx_icase = False, rx_mline = True\<rparr>"

definition dehyphen :: "ucd \<Rightarrow> pystr \<Rightarrow> pystr" where
  "dehyphen db txt = re_sub db dehyphen_rx [TGrp 1, TGrp 2] txt"

text \<open>
  The three loops of \<open>find_accessions\<close>, innermost first. The state is the pair of the
  list \<open>found\<close> and the set \<open>seen\<close>.
\<close>

type_synonym hit = "pystr \<times> pystr"

definition add_match ::
  "ucd \<Rightarrow> pystr \<Rightarrow> hit list \<times> hit set \<Rightarrow> pystr \<times> pystr list \<Rightarrow> hit list \<times> hit set" where
  "add_match db acc_type st m =
     (let acc = py_upper db (group (snd m) 1);
          key = (acc_type, acc)
      in if key \<notin> snd st then (fst st @ [(acc_type, acc)], insert key (snd st)) else st)"

definition scan_target ::
  "ucd \<Rightarrow> pystr \<Rightarrow> regex \<Rightarrow> hit list \<times> hit set \<Rightarrow> pystr \<Rightarrow> hit list \<times> hit set" where
  "scan_target db acc_type rx st target = foldl (add_match db acc_type) st (finditer db rx target)"

definition scan_rule ::
  "ucd \<Rightarrow> pystr list \<Rightarrow> hit list \<times> hit set \<Rightarrow> pystr \<times> regex \<Rightarrow> hit list \<times> hit set" where
  "scan_rule db targets st rule = foldl (scan_target db (fst rule) (snd rule)) st targets"

definition find_accessions :: "ucd \<Rightarrow> pystr \<Rightarrow> hit list" where
  "find_accessions db txt =
     (let text_dehyphen = dehyphen db txt;
          targets = [txt, text_dehyphen]
      in fst (foldl (scan_rule db targets) ([], {}) COMPILED))"

section \<open>Documents as the PDF library presents them\<close>

text \<open>
  An exception is its class name and its message. A span has an optional text and an
  optional font size; a line is its spans, a block its lines (a block without lines is
  the empty list). A page gives its layout (\<open>get_text("dict")\<close>) and its plain text
  (\<open>get_text()\<close>), or raises. A document has the optional title of its metadata and its
  pages. A file has its name, its stem, what \<open>fitz.open\<close> gives for it, and what moving
  it would raise. Font sizes are finite floats, read here as real numbers.
\<close>

record exn =
  exn_class :: pystr
  exn_msg :: pystr

record span =
  span_text :: "pystr option"
  span_size :: "real option"

type_synonym block = "span list list"

record page =
  page_dict :: "exn + block list"
  page_plain :: "exn + pystr"

record document =
  doc_title :: "pystr option"
  doc_pages :: "page list"

record pdf_file =
  pdf_name :: pystr
  pdf_stem :: pystr
  pdf_open :: "exn + document"
  pdf_move :: "exn option"

section \<open>Title inference\<close>

text \<open>
  The body of the innermost loop over the spans of the first page; \<open>best\<close> is the pair
  of the size and the text of the best span so far.
\<close>

definition span_txt :: "span \<Rightarrow> pystr" where
  "span_txt sp = py_strip (case span_text sp of None \<Rightarrow> [] | Some t \<Rightarrow> t)"

definition span_sz :: "span \<Rightarrow> real" where
  "span_sz sp = (case span_size sp of None \<Rightarrow> 0 | Some z \<Rightarrow> z)"

text \<open>\<^verbatim>\<open>txt and len(txt) > 5 and not txt.isupper()\<close>\<close>

definition qualifies :: "ucd \<Rightarrow> span \<Rightarrow> bool" where
  "qualifies db sp \<longleftrightarrow> span_txt sp \<noteq> [] \<and> length (span_txt sp) > 5 \<and> \<not> py_isupper db (span_txt sp)"

definition best_step :: "ucd \<Rightarrow> real \<times> pystr \<Rightarrow> span \<Rightarrow> real \<times> pystr" where
  "best_step db best sp =
     (let txt = span_txt sp;
          sz = span_sz sp
      in if qualifies db sp
         then (if sz > fst best then (sz, txt) else best)
         else best)"

definition best_span :: "ucd \<Rightarrow> block list \<Rightarrow> real \<times> pystr" where
  "best_span db blocks =
     foldl (\<lambda>best blk. foldl (\<lambda>best ln. foldl (best_step db) best ln) best blk) (- 1, []) blocks"

text \<open>
  The four return statements of \<open>guess_title_from_first_page\<close>; each writes its own
  debug message, so the tier of a result is what the function reports.
\<close>

datatype tier = Metadata | LargestSpan | FirstLine | FileStem

definition meta_applies :: "pystr \<Rightarrow> bool" where
  "meta_applies meta_title \<longleftrightarrow>
     meta_title \<noteq> [] \<and> py_strip meta_title \<noteq> [] \<and> length (py_strip meta_title) > 3"

definition span_tier :: "ucd \<Rightarrow> document \<Rightarrow> exn + pystr option" where
  "span_tier db doc =
     (if length (doc_pages doc) > 0 then
        (case page_dict (hd (doc_pages doc)) of
           Inl e \<Rightarrow> Inl e
         | Inr blocks \<Rightarrow>
             (let best = best_span db blocks
              in if snd best \<noteq> [] then Inr (Some (clean_title db (snd best))) else Inr None))
      else Inr None)"

definition line_tier :: "ucd \<Rightarrow> document \<Rightarrow> exn + pystr option" where
  "line_tier db doc =
     (if length (doc_pages doc) > 0 then
        (case page_plain (hd (doc_pages doc)) of
           Inl e \<Rightarrow> Inl e
         | Inr raw \<Rightarrow>
             (case List.find (\<lambda>L. L \<noteq> [] \<and> length L > 5) (map py_strip (splitlines raw)) of
                Some L \<Rightarrow> Inr (Some (clean_title db L))
              | None \<Rightarrow> Inr None))
      else Inr None)"

definition title_cascade :: "ucd \<Rightarrow> pystr \<Rightarrow> document \<Rightarrow> exn + tier \<times> pystr" where
  "title_cascade db stem doc =
     (let meta_title = (case doc_title doc of None \<Rightarrow> [] | Some t \<Rightarrow> t)
      in if meta_applies meta_title then Inr (Metadata, clean_title db meta_title)
         else (case span_tier db doc of
                 Inl e \<Rightarrow> Inl e
               | Inr (Some title) \<Rightarrow> Inr (LargestSpan, title)
               | Inr None \<Rightarrow>
                   (case line_tier db doc of
                      Inl e \<Rightarrow> Inl e
                    | Inr (Some title) \<Rightarrow> Inr (FirstLine, title)
                    | Inr None \<Rightarrow> Inr (FileStem, stem))))"

definition guess_title_from_first_page :: "ucd \<Rightarrow> pdf_file \<Rightarrow> exn + pystr" where
  "guess_title_from_first_page db pdf =
     (case pdf_open pdf of
        Inl e \<Rightarrow> Inl e
      | Inr doc \<Rightarrow> (case title_cascade db (pdf_stem pdf) doc of Inl e \<Rightarrow> Inl e | Inr r \<Rightarrow> Inr (snd r)))"

section \<open>Text extraction\<close>

fun page_texts :: "page list \<Rightarrow> exn + pystr list" where
  "page_texts [] = Inr []"
| "page_texts (p # ps) =
     (case page_plain p of
        Inl e \<Rightarrow> Inl e
      | Inr t \<Rightarrow> (case page_texts ps of Inl e \<Rightarrow> Inl e | Inr ts \<Rightarrow> Inr (t # ts)))"

definition extract_pdf_text :: "pdf_file \<Rightarrow> exn + pystr" where
  "extract_pdf_text pdf =
     (case pdf_open pdf of
        Inl e \<Rightarrow> Inl e
      | Inr doc \<Rightarrow> (case page_texts (doc_pages doc) of Inl e \<Rightarrow> Inl e | Inr ts \<Rightarrow> Inr (py_join [10] ts)))"

section \<open>The batch loop\<close>

text \<open>
  A row of the table, a record of the JSON lines (the \<open>error\<close> key is optional), and the
  three accumulators of \<open>main\<close>.
\<close>

record row =
  r_pdf_file :: pystr
  r_paper_title :: pystr
  r_accession_type :: pystr
  r_accession :: pystr

record jrec =
  j_pdf_file :: pystr
  j_paper_title :: pystr
  j_accessions :: "hit list"
  j_error :: "pystr option"

record batch =
  rows :: "row list"
  jsonl_records :: "jrec list"
  total_matches :: nat

text \<open>
  The body of the \<open>try\<close>: the accumulators as they are when the body ends, and the
  exception that ended it, if any.
\<close>

definition try_body :: "ucd \<Rightarrow> bool \<Rightarrow> bool \<Rightarrow> batch \<Rightarrow> pdf_file \<Rightarrow> batch \<times> exn option" where
  "try_body db write_jsonl move_done st pdf =
     (case guess_title_from_first_page db pdf of
        Inl e \<Rightarrow> (st, Some e)
      | Inr title \<Rightarrow>
          (case extract_pdf_text pdf of
             Inl e \<Rightarrow> (st, Some e)
           | Inr txt \<Rightarrow>
               (let matches = find_accessions db txt;
                    st1 =
                      (if matches \<noteq> [] then
                         st\<lparr>total_matches := total_matches st + length matches,
                            rows := rows st @
                              map (\<lambda>(acc_type, acc).
                                     \<lparr>r_pdf_file = pdf_name pdf, r_paper_title = title,
                                      r_accession_type = acc_type, r_accession = acc\<rparr>) matches,
                            jsonl_records := jsonl_records st @
                              (if write_jsonl then
                                 [\<lparr>j_pdf_file = pdf_name pdf, j_paper_title = title,
                                   j_accessions = matches, j_error = None\<rparr>]
                               else [])\<rparr>
                       else
                         st\<lparr>rows := rows st @
                              [\<lparr>r_pdf_file = pdf_name pdf, r_paper_title = title,
                                r_accession_type = [], r_accession = []\<rparr>],
                            jsonl_records := jsonl_records st @
                              (if write_jsonl then
                                 [\<lparr>j_pdf_file = pdf_name pdf, j_paper_title = title,
                                   j_accessions = [], j_error = None\<rparr>]
                               else [])\<rparr>)
                in if move_done then (st1, pdf_move pdf) else (st1, None))))"

text \<open>The \<open>except Exception\<close> clause.\<close>

definition error_row :: "pdf_file \<Rightarrow> exn \<Rightarrow> row" where
  "error_row pdf e =
     \<lparr>r_pdf_file = pdf_name pdf, r_paper_title = asc ''ERROR: '' @ exn_class e,
      r_accession_type = [], r_accession = []\<rparr>"

definition error_rec :: "pdf_file \<Rightarrow> exn \<Rightarrow> jrec" where
  "error_rec pdf e =
     \<lparr>j_pdf_file = pdf_name pdf, j_paper_title = asc ''ERROR: '' @ exn_class e,
      j_accessions = [], j_error = Some (exn_msg e)\<rparr>"

definition process_pdf :: "ucd \<Rightarrow> bool \<Rightarrow> bool \<Rightarrow> batch \<Rightarrow> pdf_file \<Rightarrow> batch" where
  "process_pdf db write_jsonl move_done st pdf =
     (case try_body db write_jsonl move_done st pdf of
        (st', None) \<Rightarrow> st'
      | (st', Some e) \<Rightarrow>
          st'\<lparr>rows := rows st' @ [error_row pdf e],
              jsonl_records := jsonl_records st' @ (if write_jsonl then [error_rec pdf e] else [])\<rparr>)"

text \<open>\<^verbatim>\<open>rows = []\<close>, \<^verbatim>\<open>jsonl_records = []\<close>, \<^verbatim>\<open>total_matches = 0\<close>\<close>

definition empty_batch :: batch where
  "empty_batch = \<lparr>rows = [], jsonl_records = [], total_matches = 0\<rparr>"

definition run_batch :: "ucd \<Rightarrow> bool \<Rightarrow> bool \<Rightarrow> pdf_file list \<Rightarrow> batch" where
  "run_batch db write_jsonl move_done pdf_files =
     foldl (process_pdf db write_jsonl move_done) empty_batch pdf_files"

text \<open>
  A table of the runtime in which no code point beyond ASCII is alphanumeric, a digit
  or cased; it serves to evaluate the program on ASCII inputs, where the tables are not
  consulted.
\<close>

definition ucd_ascii :: ucd where
  "ucd_ascii =
     \<lparr>uc_alnum = (\<lambda>c. False), uc_decimal = (\<lambda>c. False), uc_islower = (\<lambda>c. False),
      uc_isupper = (\<lambda>c. False), uc_istitle = (\<lambda>c. False), uc_toupper = (\<lambda>c. [c])\<rparr>"

section \<open>Direct descriptions of the substitutions and of the deduplication\<close>

text \<open>
  The functions of this section are not part of the program: they say directly what
  the regular-expression substitutions and the \<open>seen\<close> set compute, and are proved
  equal to the program below.
\<close>

text \<open>Removing the longest suffix whose characters all satisfy \<open>P\<close>.\<close>

definition rstrip :: "('a \<Rightarrow> bool) \<Rightarrow> 'a list \<Rightarrow> 'a list" where
  "rstrip P s = rev (dropWhile P (rev s))"

text \<open>The characters of the class \<^verbatim>\<open>[\s\-<en dash><em dash>:]\<close>.\<close>

definition is_trail :: "cp \<Rightarrow> bool" where
  "is_trail c \<longleftrightarrow> is_space c \<or> c = 45 \<or> c = 8211 \<or> c = 8212 \<or> c = 58"

text \<open>Every run of white space becomes one space.\<close>

function collapse_ws :: "pystr \<Rightarrow> pystr" where
  "collapse_ws [] = []"
| "collapse_ws (c # s) =
     (if is_space c then 32 # collapse_ws (dropWhile is_space s) else c # collapse_ws s)"
  by pat_completeness auto
termination
  by (relation "measure length") (auto simp: less_Suc_eq_le length_dropWhile_le)

text \<open>White space occurs only as single spaces.\<close>

fun ws_normal :: "pystr \<Rightarrow> bool" where
  "ws_normal [] = True"
| "ws_normal (c # s) =
     ((is_space c \<longrightarrow> c = 32 \<and> (s = [] \<or> \<not> is_space (hd s))) \<and> ws_normal s)"

text \<open>Keeping the first occurrence of every element.\<close>

function first_occ :: "'a list \<Rightarrow> 'a list" where
  "first_occ [] = []"
| "first_occ (x # xs) = x # first_occ (removeAll x xs)"
  by pat_completeness auto
termination
  by (relation "measure length") (auto simp: less_Suc_eq_le length_removeAll_less_eq)

text \<open>The body of the innermost loop of \<open>find_accessions\<close>, on the key alone.\<close>

definition add_key :: "'a list \<times> 'a set \<Rightarrow> 'a \<Rightarrow> 'a list \<times> 'a set" where
  "add_key st k = (if k \<in> snd st then st else (fst st @ [k], insert k (snd st)))"

text \<open>
  The hits of one rule on one surface, in the order of the matches: the label and the
  upper-cased first group of every match. The candidates of a text go through the
  rules in registry order and take, for each rule, the hits on the raw text followed by
  the hits on the dehyphenated text.
\<close>

definition rule_hits :: "ucd \<Rightarrow> pystr \<Rightarrow> regex \<Rightarrow> pystr \<Rightarrow> hit list" where
  "rule_hits db label rx target =
     map (\<lambda>m. (label, py_upper db (group (snd m) 1))) (finditer db rx target)"

definition candidates :: "ucd \<Rightarrow> pystr \<Rightarrow> hit list" where
  "candidates db txt =
     concat (map (\<lambda>(label, rx). rule_hits db label rx txt @ rule_hits db label rx (dehyphen db txt))
               COMPILED)"

text \<open>
  The dehyphenation read from left to right: where a word character, a hyphen, a line
  break and a word character follow each other, the two word characters are kept and
  the reading goes on behind them; otherwise one character is kept.
\<close>

fun collapse_wraps :: "ucd \<Rightarrow> pystr \<Rightarrow> pystr" where
  "collapse_wraps db (a # h # n # b # r) =
     (if is_word db a \<and> h = 45 \<and> n = 10 \<and> is_word db b then a # b # collapse_wraps db r
      else a # collapse_wraps db (h # n # b # r))"
| "collapse_wraps db (a # r) = a # collapse_wraps db r"
| "collapse_wraps db [] = []"

text \<open>\<open>deletes_hl s t\<close>: \<open>t\<close> is \<open>s\<close> without some of its hyphen, line break pairs.\<close>

inductive deletes_hl :: "pystr \<Rightarrow> pystr \<Rightarrow> bool" where
  done_hl: "deletes_hl [] []"
| keep_hl: "deletes_hl s t \<Longrightarrow> deletes_hl (c # s) (c # t)"
| drop_hl: "deletes_hl s t \<Longrightarrow> deletes_hl (45 # 10 # s) t"

text \<open>
  Case variants: \<open>d\<close> is \<open>c\<close> or the same ASCII letter in the other case. A class is
  plain when it names no ASCII letter, and a token is case-blind when it is matched
  ignoring case or its classes are plain.
\<close>

definition ascii_letter :: "cp \<Rightarrow> bool" where
  "ascii_letter c \<longleftrightarrow> (65 \<le> c \<and> c \<le> 90) \<or> (97 \<le> c \<and> c \<le> 122)"

definition case_variant :: "cp \<Rightarrow> cp \<Rightarrow> bool" where
  "case_variant c d \<longleftrightarrow> d = c \<or> (ascii_letter c \<and> ascii_letter d \<and> ci_fold c = ci_fold d)"

fun cls_plain :: "cls \<Rightarrow> bool" where
  "cls_plain (Chr k) = (\<not> ascii_letter k)"
| "cls_plain (Rng a b) = list_all (\<lambda>k. \<not> ascii_letter k) [a..<Suc b]"
| "cls_plain Digit = True"
| "cls_plain Word = True"
| "cls_plain Space = True"

fun case_blind :: "bool \<Rightarrow> tok \<Rightarrow> bool" where
  "case_blind ic (Rep cs lo hi) = (ic \<or> list_all cls_plain cs)"
| "case_blind ic Open = True"
| "case_blind ic Close = True"
| "case_blind ic Dollar = True"

definition match_variant :: "pystr list \<times> pystr \<Rightarrow> pystr list \<times> pystr \<Rightarrow> bool" where
  "match_variant r r' \<longleftrightarrow>
     list_all2 (list_all2 case_variant) (fst r) (fst r') \<and> list_all2 case_variant (snd r) (snd r')"

fun piece_variant :: "piece \<Rightarrow> piece \<Rightarrow> bool" where
  "piece_variant (Gap c) (Gap d) = case_variant c d"
| "piece_variant (Hit m gs) (Hit m' gs') =
     (list_all2 case_variant m m' \<and> list_all2 (list_all2 case_variant) gs gs')"
| "piece_variant (Gap c) (Hit m gs) = False"
| "piece_variant (Hit m gs) (Gap d) = False"

text \<open>
  The tests of the title tiers, on the document. \<open>meta_usable\<close>: the metadata title is
  present and its trimmed form is non-blank and longer than 3 characters.
  \<open>first_largest\<close>: \<open>w\<close> is the first of the qualifying spans of the largest font size
  (above the \<open>-1\<close> the scan starts from). \<open>no_span\<close>: no qualifying span has a font size
  above \<open>-1\<close>. \<open>first_long\<close>: \<open>L\<close> is the first of the trimmed lines that is longer than
  5 characters.
\<close>

definition meta_usable :: "document \<Rightarrow> pystr \<Rightarrow> bool" where
  "meta_usable doc m \<longleftrightarrow> doc_title doc = Some m \<and> py_strip m \<noteq> [] \<and> 3 < length (py_strip m)"

definition first_largest :: "ucd \<Rightarrow> span list \<Rightarrow> span list \<Rightarrow> span \<Rightarrow> span list \<Rightarrow> bool" where
  "first_largest db spans pre w post \<longleftrightarrow>
     spans = pre @ w # post \<and> qualifies db w \<and> - 1 < span_sz w \<and>
     (\<forall>x\<in>set pre. qualifies db x \<longrightarrow> span_sz x < span_sz w) \<and>
     (\<forall>x\<in>set post. qualifies db x \<longrightarrow> span_sz x \<le> span_sz w)"

definition no_span :: "ucd \<Rightarrow> span list \<Rightarrow> bool" where
  "no_span db spans \<longleftrightarrow> (\<forall>x\<in>set spans. qualifies db x \<longrightarrow> span_sz x \<le> - 1)"

definition first_long :: "pystr list \<Rightarrow> pystr list \<Rightarrow> pystr \<Rightarrow> pystr list \<Rightarrow> bool" where
  "first_long ls before L after \<longleftrightarrow>
     ls = before @ L # after \<and> 5 < length L \<and> (\<forall>x\<in>set before. length x \<le> 5)"

section \<open>Evaluating the model on concrete inputs\<close>

lemmas char_class_defs =
  is_space_def is_decimal_def is_alnum_def is_word_def cp_islower_def cp_isupper_def
  cp_istitle_def cp_upper_def ci_fold_def is_linebreak_def

lemmas regex_defs =
  asc_def at_least_def lit_def one_of_def opt_def chrs_def in_set_def at_dollar_def Let_def
  re_sub_def expand_def group_def finditer_def scan.simps

lemmas title_defs =
  ws_rx_def trail_rx_def trail_cls_def py_strip_def clean_title_def

text \<open>
  The continuation of a repetition is evaluated only once a count is tried.
\<close>

lemma first_some_weak_cong: "xs = ys \<Longrightarrow> first_some f xs = first_some f ys"
  by simp

section \<open>The search loop\<close>

text \<open>
  A match leaves a suffix of the text, and under \<open>must_advance\<close> it is never empty: the
  branch of \<open>scan\<close> for an empty match under \<open>must_advance\<close> is never taken.
\<close>

lemma first_some_SomeD: "first_some f xs = Some y \<Longrightarrow> \<exists>x\<in>set xs. f x = Some y"
  by (induction xs) (auto split: option.splits)

lemma re_match_rest:
  "re_match ts db ic ml ban cur caps s = Some (gs, rest) \<Longrightarrow>
   length rest \<le> length s \<and> ban \<noteq> Some (length rest)"
proof (induction ts arbitrary: cur caps s)
  case Nil
  then show ?case by (auto split: if_splits)
next
  case (Cons t ts)
  show ?case
  proof (cases t)
    case Open
    with Cons.prems Cons.IH [of "Some []" caps s] show ?thesis by simp
  next
    case Close
    with Cons.prems Cons.IH [of None _ s] show ?thesis by simp
  next
    case Dollar
    with Cons.prems Cons.IH [of cur caps s] show ?thesis by (simp split: if_splits)
  next
    case (Rep cs lo hi)
    with Cons.prems obtain k where
      "re_match ts db ic ml ban (map_option (\<lambda>g. g @ take k s) cur) caps (drop k s) = Some (gs, rest)"
      by (auto simp: Let_def dest!: first_some_SomeD simp del: upt_Suc)
    from Cons.IH [OF this] show ?thesis by auto
  qed
qed

lemma must_advance:
  "re_match ts db ic ml (Some (length s)) cur caps s = Some (gs, rest) \<Longrightarrow>
   0 < length s - length rest"
  using re_match_rest [of ts db ic ml "Some (length s)" cur caps s gs rest] by auto

section \<open>The substitutions of the title cleaning\<close>

lemma first_some_None: "(\<And>x. x \<in> set xs \<Longrightarrow> f x = None) \<Longrightarrow> first_some f xs = None"
  by (induction xs) auto

lemma rev_upt_Suc: "rev [lo..<Suc k] = (if lo \<le> k then k # rev [lo..<k] else [])"
  by simp

lemma takeWhile_Nil_iff: "takeWhile P s = [] \<longleftrightarrow> s = [] \<or> \<not> P (hd s)"
  by (cases s) auto

lemma re_match_plus:
  "re_match [Rep cs (Suc 0) None] db ic ml None cur caps s =
     (if s \<noteq> [] \<and> in_set db ic cs (hd s) then Some (caps, dropWhile (in_set db ic cs) s) else None)"
proof (cases "s \<noteq> [] \<and> in_set db ic cs (hd s)")
  case True
  then have "takeWhile (in_set db ic cs) s \<noteq> []"
    by (simp add: takeWhile_Nil_iff)
  then have "Suc 0 \<le> length (takeWhile (in_set db ic cs) s)"
    by (simp add: Suc_le_eq)
  then show ?thesis
    using True by (simp add: Let_def dropWhile_eq_drop rev_upt_Suc del: upt_Suc)
next
  case False
  then have "takeWhile (in_set db ic cs) s = []"
    by (simp add: takeWhile_Nil_iff)
  then show ?thesis
    using False by (simp add: Let_def)
qed

lemma in_set_Space [simp]: "in_set db ic [Space] = is_space"
  by (auto simp: in_set_def fun_eq_iff)

lemma length_dropWhile_diff:
  "length s - length (dropWhile P s) = length (takeWhile P s)"
proof -
  have "length (takeWhile P s @ dropWhile P s) = length s"
    by simp
  then show ?thesis
    unfolding length_append by linarith
qed

lemma scan_ws_Nil: "scan db ws_rx False [] = []"
  by (subst scan.simps) (simp add: ws_rx_def at_least_def re_match_plus del: re_match.simps)

lemma scan_ws_gap: "\<not> is_space c \<Longrightarrow> scan db ws_rx False (c # s) = Gap c # scan db ws_rx False s"
  by (subst scan.simps) (simp add: ws_rx_def at_least_def re_match_plus del: re_match.simps)

lemma scan_ws_hit:
  assumes "is_space c"
  shows "scan db ws_rx False (c # s) =
     Hit (c # takeWhile is_space s) [] # scan db ws_rx False (dropWhile is_space s)"
proof -
  let ?rest = "dropWhile is_space s"
  have m: "re_match (rx_toks ws_rx) db (rx_icase ws_rx) (rx_mline ws_rx) None None [] (c # s)
             = Some ([], ?rest)"
    using assms by (simp add: ws_rx_def at_least_def re_match_plus del: re_match.simps)
  have l: "length ?rest < Suc (length s)"
    using length_dropWhile_le [of is_space s] by simp
  have n: "Suc (length s) - length ?rest = Suc (length (takeWhile is_space s))"
    using length_dropWhile_diff [of s is_space] length_dropWhile_le [of is_space s]
    by simp
  have t: "take (length (takeWhile is_space s)) s = takeWhile is_space s"
    by (simp add: takeWhile_eq_take [symmetric])
  have d: "drop (length (takeWhile is_space s)) s = ?rest"
    by (simp add: dropWhile_eq_drop [symmetric])
  show ?thesis
    by (subst scan.simps) (simp add: m l n t d Let_def del: re_match.simps)
qed

lemma re_sub_ws: "re_sub db ws_rx [TLit [32]] s = collapse_ws s"
proof (induction s rule: collapse_ws.induct)
  case 1
  show ?case by (simp add: re_sub_def scan_ws_Nil)
next
  case (2 c s)
  show ?case
  proof (cases "is_space c")
    case True
    with 2 show ?thesis
      by (simp add: re_sub_def scan_ws_hit expand_def)
  next
    case False
    with 2 show ?thesis
      by (simp add: re_sub_def scan_ws_gap)
  qed
qed


lemma in_set_trail [simp]: "in_set db False trail_cls = is_trail"
  by (auto simp: in_set_def fun_eq_iff trail_cls_def is_trail_def)

lemma rstrip_Nil [simp]: "rstrip P [] = []"
  by (simp add: rstrip_def)

lemma rstrip_Cons: "rstrip P (c # s) = (if list_all P (c # s) then [] else c # rstrip P s)"
  by (auto simp: rstrip_def dropWhile_append list_all_iff dropWhile_eq_Nil_conv)

lemma rstrip_prefix: "\<exists>k. rstrip P s = take k s"
proof (induction s)
  case Nil
  show ?case by simp
next
  case (Cons c s)
  then obtain k where k: "rstrip P s = take k s" by blast
  show ?case
  proof (cases "list_all P (c # s)")
    case True
    then have "rstrip P (c # s) = take 0 (c # s)"
      by (simp add: rstrip_Cons)
    then show ?thesis by blast
  next
    case False
    then have "rstrip P (c # s) = take (Suc k) (c # s)"
      by (simp add: rstrip_Cons k)
    then show ?thesis by blast
  qed
qed

lemma rstrip_nonempty: "rstrip P s \<noteq> [] \<Longrightarrow> s \<noteq> []"
  by auto

lemma rstrip_hd: "rstrip P s \<noteq> [] \<Longrightarrow> hd (rstrip P s) = hd s"
  by (cases s) (auto simp: rstrip_Cons split: if_splits)

lemma rstrip_last: "rstrip P s \<noteq> [] \<Longrightarrow> \<not> P (last (rstrip P s))"
  unfolding rstrip_def using hd_dropWhile [of P "rev s"] by (simp add: last_rev)

lemma rstrip_id: "s = [] \<or> \<not> P (last s) \<Longrightarrow> rstrip P s = s"
proof (cases "s = []")
  case True
  then show ?thesis by simp
next
  case False
  assume "s = [] \<or> \<not> P (last s)"
  with False have "\<not> P (hd (rev s))" by (simp add: hd_rev)
  with False have "dropWhile P (rev s) = rev s"
    by (cases "rev s") auto
  then show ?thesis by (simp add: rstrip_def)
qed

lemma rstrip_all: "list_all P s \<Longrightarrow> rstrip P s = []"
  by (simp add: rstrip_def list_all_iff dropWhile_eq_Nil_conv)

lemma py_strip_rstrip: "py_strip s = rstrip is_space (dropWhile is_space s)"
  by (simp add: py_strip_def rstrip_def)

lemma take_run_all: "k \<le> length (takeWhile P s) \<Longrightarrow> list_all P (take k s)"
proof -
  assume k: "k \<le> length (takeWhile P s)"
  have "take k s = take k (takeWhile P s @ dropWhile P s)" by simp
  also have "\<dots> = take k (takeWhile P s)" using k by (simp del: takeWhile_dropWhile_id)
  finally have "set (take k s) \<subseteq> set (takeWhile P s)" by (simp add: set_take_subset)
  then show ?thesis
    by (auto simp: list_all_iff dest: set_takeWhileD)
qed

lemma re_match_trail:
  assumes nl: "in_set db ic cs 10"
  shows "re_match [Rep cs (Suc 0) None, Dollar] db ic False None cur caps s =
     (if s \<noteq> [] \<and> list_all (in_set db ic cs) s then Some (caps, []) else None)"
proof (cases "s \<noteq> [] \<and> list_all (in_set db ic cs) s")
  case True
  then have run: "takeWhile (in_set db ic cs) s = s"
    by (simp add: list_all_iff)
  from True have "Suc 0 \<le> length s" by (simp add: Suc_le_eq)
  then show ?thesis
    using True by (simp add: Let_def run rev_upt_Suc at_dollar_def del: upt_Suc)
next
  case False
  let ?P = "in_set db ic cs"
  let ?run = "length (takeWhile ?P s)"
  have "first_some
          (\<lambda>k. re_match [Dollar] db ic False None (map_option (\<lambda>g. g @ take k s) cur) caps (drop k s))
          (rev [Suc 0..<Suc ?run]) = None"
  proof (rule first_some_None)
    fix k assume "k \<in> set (rev [Suc 0..<Suc ?run])"
    then have k: "Suc 0 \<le> k" "k \<le> ?run" by auto
    have all: "list_all ?P (take k s)" using k(2) by (rule take_run_all)
    have "\<not> at_dollar False (drop k s)"
    proof
      assume "at_dollar False (drop k s)"
      then have "drop k s = [] \<or> drop k s = [10]" by (simp add: at_dollar_def)
      then have "list_all ?P (drop k s)" using nl by auto
      with all have "list_all ?P (take k s @ drop k s)" by (simp del: append_take_drop_id)
      then have "list_all ?P s" by simp
      moreover have "s \<noteq> []" using k length_takeWhile_le [of ?P s] by auto
      ultimately show False using False by simp
    qed
    then show "re_match [Dollar] db ic False None (map_option (\<lambda>g. g @ take k s) cur) caps (drop k s) = None"
      by simp
  qed
  then show ?thesis
    using False by (simp add: Let_def del: upt_Suc)
qed

lemma is_trail_10: "is_trail 10"
  by (simp add: is_trail_def is_space_def)

lemma trail_rx_sel:
  "rx_toks trail_rx = [Rep trail_cls (Suc 0) None, Dollar]"
  "rx_icase trail_rx = False" "rx_mline trail_rx = False"
  by (simp_all add: trail_rx_def at_least_def)

lemma scan_trail_Nil: "scan db trail_rx False [] = []"
  using re_match_trail [of db False trail_cls None "[]" "[]"]
  by (subst scan.simps) (simp add: trail_rx_sel is_trail_10 del: re_match.simps)

lemma scan_trail_hit:
  "list_all is_trail (c # s) \<Longrightarrow> scan db trail_rx False (c # s) = [Hit (c # s) []]"
  using re_match_trail [of db False trail_cls None "[]" "c # s"]
  by (subst scan.simps)
     (simp add: trail_rx_sel is_trail_10 Let_def scan_trail_Nil del: re_match.simps)

lemma scan_trail_gap:
  "\<not> list_all is_trail (c # s) \<Longrightarrow> scan db trail_rx False (c # s) = Gap c # scan db trail_rx False s"
  using re_match_trail [of db False trail_cls None "[]" "c # s"]
  by (subst scan.simps)
     (simp add: trail_rx_sel is_trail_10 Let_def del: re_match.simps)

lemma re_sub_trail: "re_sub db trail_rx [] s = rstrip is_trail s"
proof (induction s)
  case Nil
  show ?case by (simp add: re_sub_def scan_trail_Nil)
next
  case (Cons c s)
  show ?case
  proof (cases "list_all is_trail (c # s)")
    case True
    then show ?thesis
      by (simp add: re_sub_def scan_trail_hit expand_def rstrip_all)
  next
    case False
    then have "re_sub db trail_rx [] (c # s) = c # re_sub db trail_rx [] s"
      by (simp add: re_sub_def scan_trail_gap)
    with False Cons show ?thesis
      by (simp add: rstrip_Cons)
  qed
qed

lemma clean_title_eq: "clean_title db t = rstrip is_trail (py_strip (collapse_ws t))"
  by (simp add: clean_title_def re_sub_ws re_sub_trail)


lemma is_space_32: "is_space 32"
  by (simp add: is_space_def)

lemma collapse_ws_hd:
  "s \<noteq> [] \<Longrightarrow> \<not> is_space (hd s) \<Longrightarrow> collapse_ws s \<noteq> [] \<and> hd (collapse_ws s) = hd s"
  by (cases s) auto

lemma ws_normal_collapse: "ws_normal (collapse_ws s)"
proof (induction s rule: collapse_ws.induct)
  case 1
  show ?case by simp
next
  case (2 c s)
  show ?case
  proof (cases "is_space c")
    case True
    have "collapse_ws (dropWhile is_space s) = [] \<or>
               \<not> is_space (hd (collapse_ws (dropWhile is_space s)))"
    proof (cases "dropWhile is_space s = []")
      case True
      show ?thesis unfolding True by simp
    next
      case False
      then have "\<not> is_space (hd (dropWhile is_space s))"
        by (rule hd_dropWhile)
      with False show ?thesis
        using collapse_ws_hd [of "dropWhile is_space s"] by simp
    qed
    with True 2 show ?thesis by simp
  next
    case False
    with 2 show ?thesis by simp
  qed
qed

lemma ws_normal_fixed: "ws_normal s \<Longrightarrow> collapse_ws s = s"
proof (induction s)
  case Nil
  show ?case by simp
next
  case (Cons c s)
  show ?case
  proof (cases "is_space c")
    case True
    with Cons.prems have c: "c = 32" and h: "s = [] \<or> \<not> is_space (hd s)" by auto
    from h have "dropWhile is_space s = s" by (cases s) auto
    with Cons True c show ?thesis by simp
  next
    case False
    with Cons show ?thesis by simp
  qed
qed

lemma ws_normal_dropWhile: "ws_normal s \<Longrightarrow> ws_normal (dropWhile P s)"
  by (induction s) auto

lemma ws_normal_take: "ws_normal s \<Longrightarrow> ws_normal (take k s)"
proof (induction s arbitrary: k)
  case Nil
  show ?case by simp
next
  case (Cons c s)
  show ?case
  proof (cases k)
    case 0
    then show ?thesis by simp
  next
    case (Suc j)
    have "take j s = [] \<or> hd (take j s) = hd s"
      by (cases j; cases s) auto
    with Cons Suc show ?thesis by auto
  qed
qed

lemma ws_normal_rstrip: "ws_normal s \<Longrightarrow> ws_normal (rstrip P s)"
  using rstrip_prefix [of P s] ws_normal_take by auto

lemma ws_normal_clean: "ws_normal (clean_title db t)"
  by (simp add: clean_title_eq py_strip_rstrip ws_normal_rstrip ws_normal_dropWhile
      ws_normal_collapse)

lemma clean_title_hd: "clean_title db t = [] \<or> \<not> is_space (hd (clean_title db t))"
proof (cases "clean_title db t = []")
  case True
  then show ?thesis by simp
next
  case False
  let ?v = "dropWhile is_space (collapse_ws t)"
  let ?u = "rstrip is_space ?v"
  from False have r: "rstrip is_trail ?u \<noteq> []"
    by (simp add: clean_title_eq py_strip_rstrip)
  then have u: "?u \<noteq> []" by (rule rstrip_nonempty)
  then have v: "?v \<noteq> []" by (rule rstrip_nonempty)
  have "hd (clean_title db t) = hd ?u"
    using rstrip_hd [OF r] by (simp add: clean_title_eq py_strip_rstrip)
  also have "\<dots> = hd ?v" using rstrip_hd [OF u] .
  finally show ?thesis
    using hd_dropWhile [OF v] by simp
qed

lemma clean_title_last: "clean_title db t = [] \<or> \<not> is_trail (last (clean_title db t))"
  using rstrip_last [of is_trail "py_strip (collapse_ws t)"] by (auto simp: clean_title_eq)

lemma clean_title_fixed:
  assumes n: "ws_normal r" and h: "r = [] \<or> \<not> is_space (hd r)"
    and l: "r = [] \<or> \<not> is_trail (last r)"
  shows "clean_title db r = r"
proof -
  have 1: "collapse_ws r = r" using n by (rule ws_normal_fixed)
  have 2: "dropWhile is_space r = r" using h by (cases r) auto
  have "r = [] \<or> \<not> is_space (last r)" using l by (auto simp: is_trail_def)
  then have 3: "rstrip is_space r = r" by (rule rstrip_id)
  have 4: "rstrip is_trail r = r" using l by (rule rstrip_id)
  show ?thesis by (simp add: clean_title_eq py_strip_rstrip 1 2 3 4)
qed

text \<open>
  C9. Title cleaning is idempotent: cleaning a cleaned title changes nothing, for every
  string and whatever the character tables of the runtime are.
\<close>

theorem clean_title_idempotent: "clean_title db (clean_title db t) = clean_title db t"
  by (rule clean_title_fixed [OF ws_normal_clean clean_title_hd clean_title_last])

section \<open>The metadata tier\<close>

lemma meta_applies_iff: "meta_applies m \<longleftrightarrow> py_strip m \<noteq> [] \<and> 3 < length (py_strip m)"
  by (auto simp: meta_applies_def py_strip_def)

text \<open>
  C8. The metadata tier is the one that returns exactly when the document has a
  metadata title whose trimmed form is non-blank and longer than 3 characters; then the
  result is the cleaned metadata title whatever the pages of the document are (they are
  not read, so even a page that would raise does not matter), and the function on the
  file returns that title.
\<close>

theorem metadata_tier_iff:
  "((\<exists>t. title_cascade db stem doc = Inr (Metadata, t)) \<longleftrightarrow>
      (\<exists>m. doc_title doc = Some m \<and> py_strip m \<noteq> [] \<and> 3 < length (py_strip m))) \<and>
   (\<forall>m. doc_title doc = Some m \<and> py_strip m \<noteq> [] \<and> 3 < length (py_strip m) \<longrightarrow>
      title_cascade db stem doc = Inr (Metadata, clean_title db m) \<and>
      (\<forall>pdf. pdf_open pdf = Inr doc \<and> pdf_stem pdf = stem \<longrightarrow>
         guess_title_from_first_page db pdf = Inr (clean_title db m)))"
proof -
  have used: "title_cascade db stem doc = Inr (Metadata, clean_title db m)"
    if "doc_title doc = Some m" "py_strip m \<noteq> []" "3 < length (py_strip m)" for m
    using that by (simp add: title_cascade_def meta_applies_iff)
  have unused: "title_cascade db stem doc \<noteq> Inr (Metadata, t)"
    if "\<not> (\<exists>m. doc_title doc = Some m \<and> py_strip m \<noteq> [] \<and> 3 < length (py_strip m))" for t
  proof -
    have "\<not> meta_applies (case doc_title doc of None \<Rightarrow> [] | Some t \<Rightarrow> t)"
      using that by (cases "doc_title doc") (simp_all add: meta_applies_iff py_strip_def)
    then show ?thesis
      by (auto simp: title_cascade_def split: sum.splits option.splits)
  qed
  have whole: "guess_title_from_first_page db pdf = Inr (clean_title db m)"
    if "doc_title doc = Some m" "py_strip m \<noteq> []" "3 < length (py_strip m)"
      "pdf_open pdf = Inr doc" "pdf_stem pdf = stem" for m pdf
    using used [OF that(1-3)] that(4,5) by (simp add: guess_title_from_first_page_def)
  show ?thesis
    using used unused whole by blast
qed

theorem metadata_tier_iff_witness:
  "py_strip (asc ''  Deep  Sequencing: '') \<noteq> [] \<and>
   3 < length (py_strip (asc ''  Deep  Sequencing: '')) \<and>
   title_cascade ucd_ascii (asc ''paper'')
     \<lparr>doc_title = Some (asc ''  Deep  Sequencing: ''),
      doc_pages = [\<lparr>page_dict = Inl \<lparr>exn_class = asc ''RuntimeError'', exn_msg = []\<rparr>,
                    page_plain = Inl \<lparr>exn_class = asc ''RuntimeError'', exn_msg = []\<rparr>\<rparr>]\<rparr>
     = Inr (Metadata, asc ''Deep Sequencing'')"
proof -
  have a: "py_strip (asc ''  Deep  Sequencing: '') \<noteq> []"
    and b: "3 < length (py_strip (asc ''  Deep  Sequencing: ''))"
    by (simp_all add: regex_defs char_class_defs title_defs)
  have c: "clean_title ucd_ascii (asc ''  Deep  Sequencing: '') = asc ''Deep Sequencing''"
    by (simp add: regex_defs char_class_defs title_defs cong: first_some_weak_cong)
  show ?thesis
    using a b c
      metadata_tier_iff [of ucd_ascii "asc ''paper''"
        "\<lparr>doc_title = Some (asc ''  Deep  Sequencing: ''),
          doc_pages = [\<lparr>page_dict = Inl \<lparr>exn_class = asc ''RuntimeError'', exn_msg = []\<rparr>,
                        page_plain = Inl \<lparr>exn_class = asc ''RuntimeError'', exn_msg = []\<rparr>\<rparr>]\<rparr>"]
    by simp
qed

section \<open>The largest span of the first page\<close>

lemma foldl_foldl_concat: "foldl (\<lambda>b xs. foldl f b xs) b xss = foldl f b (concat xss)"
  by (induction xss arbitrary: b) auto

lemma foldl_blocks_concat:
  "foldl (\<lambda>best blk. foldl (\<lambda>best ln. foldl f best ln) best blk) b blocks =
   foldl f b (concat (concat blocks))"
  by (induction blocks arbitrary: b) (simp_all add: foldl_foldl_concat)

lemma best_span_flat:
  "best_span db blocks = foldl (best_step db) (- 1, []) (concat (concat blocks))"
  unfolding best_span_def by (rule foldl_blocks_concat)

lemma best_step_take:
  "qualifies db sp \<Longrightarrow> fst b < span_sz sp \<Longrightarrow> best_step db b sp = (span_sz sp, span_txt sp)"
  by (simp add: best_step_def Let_def)

lemma best_step_skip:
  "\<not> (qualifies db sp \<and> fst b < span_sz sp) \<Longrightarrow> best_step db b sp = b"
  by (auto simp: best_step_def Let_def)

lemma foldl_best_origin:
  "foldl (best_step db) b0 xs = b0 \<or>
   (\<exists>sp\<in>set xs. qualifies db sp \<and> fst b0 < span_sz sp \<and>
      foldl (best_step db) b0 xs = (span_sz sp, span_txt sp))"
proof (induction xs rule: rev_induct)
  case Nil
  show ?case by simp
next
  case (snoc x xs)
  let ?b = "foldl (best_step db) b0 xs"
  show ?case
  proof (cases "qualifies db x \<and> fst ?b < span_sz x")
    case True
    have "fst b0 \<le> fst ?b" using snoc by auto
    with True have "fst b0 < span_sz x" by simp
    moreover have "foldl (best_step db) b0 (xs @ [x]) = (span_sz x, span_txt x)"
      using True by (simp add: best_step_take)
    ultimately show ?thesis using True by auto
  next
    case False
    then have "foldl (best_step db) b0 (xs @ [x]) = ?b"
      by (simp add: best_step_skip)
    with snoc show ?thesis by auto
  qed
qed

lemma foldl_best_keep:
  "(\<And>x. x \<in> set xs \<Longrightarrow> qualifies db x \<Longrightarrow> span_sz x \<le> fst b) \<Longrightarrow> foldl (best_step db) b xs = b"
proof (induction xs)
  case Nil
  show ?case by simp
next
  case (Cons x xs)
  have "\<not> (qualifies db x \<and> fst b < span_sz x)"
    using Cons.prems [of x] by auto
  then have "best_step db b x = b" by (rule best_step_skip)
  moreover have "foldl (best_step db) b xs = b"
    by (rule Cons.IH) (simp add: Cons.prems)
  ultimately show ?case by simp
qed

lemma foldl_best_winner:
  assumes q: "qualifies db w" and lo: "fst b0 < span_sz w"
    and pre: "\<And>x. x \<in> set pre \<Longrightarrow> qualifies db x \<Longrightarrow> span_sz x < span_sz w"
    and post: "\<And>x. x \<in> set post \<Longrightarrow> qualifies db x \<Longrightarrow> span_sz x \<le> span_sz w"
  shows "foldl (best_step db) b0 (pre @ w # post) = (span_sz w, span_txt w)"
proof -
  let ?b = "foldl (best_step db) b0 pre"
  have "fst ?b < span_sz w"
    using foldl_best_origin [of db b0 pre] lo pre by auto
  then have "best_step db ?b w = (span_sz w, span_txt w)"
    using q by (simp add: best_step_take)
  moreover have "foldl (best_step db) (span_sz w, span_txt w) post = (span_sz w, span_txt w)"
    by (rule foldl_best_keep) (simp add: post)
  ultimately show ?thesis by simp
qed

lemma best_span_origin:
  "snd (best_span db blocks) \<noteq> [] \<Longrightarrow>
   \<exists>sp\<in>set (concat (concat blocks)). qualifies db sp \<and>
      best_span db blocks = (span_sz sp, span_txt sp)"
  using foldl_best_origin [of db "(- 1, [])" "concat (concat blocks)"]
  by (auto simp: best_span_flat)

lemma best_span_none:
  "(\<And>sp. sp \<in> set (concat (concat blocks)) \<Longrightarrow> \<not> qualifies db sp) \<Longrightarrow>
   snd (best_span db blocks) = []"
  using foldl_best_origin [of db "(- 1, [])" "concat (concat blocks)"]
  by (auto simp: best_span_flat)

section \<open>When a cleaned title is empty\<close>

lemma list_all_trail_dropWhile: "list_all is_trail (dropWhile is_space s) \<longleftrightarrow> list_all is_trail s"
  by (induction s) (auto simp: is_trail_def)

lemma list_all_trail_rstrip: "list_all is_trail (rstrip is_space s) \<longleftrightarrow> list_all is_trail s"
  using list_all_trail_dropWhile [of "rev s"] by (simp add: rstrip_def list_all_iff)

lemma list_all_trail_collapse: "list_all is_trail (collapse_ws s) \<longleftrightarrow> list_all is_trail s"
proof (induction s rule: collapse_ws.induct)
  case 1
  show ?case by simp
next
  case (2 c s)
  show ?case
  proof (cases "is_space c")
    case True
    then have "is_trail c" "is_trail 32" by (simp_all add: is_trail_def is_space_def)
    with True 2 show ?thesis by (simp add: list_all_trail_dropWhile)
  next
    case False
    with 2 show ?thesis by simp
  qed
qed

lemma rstrip_Nil_iff: "rstrip P s = [] \<longleftrightarrow> list_all P s"
  by (simp add: rstrip_def dropWhile_eq_Nil_conv list_all_iff)

lemma clean_title_Nil_iff: "clean_title db t = [] \<longleftrightarrow> list_all is_trail t"
  by (simp add: clean_title_eq rstrip_Nil_iff py_strip_rstrip list_all_trail_rstrip
      list_all_trail_dropWhile list_all_trail_collapse)


section \<open>The tiers of the cascade\<close>

lemma meta_unused:
  "\<not> (\<exists>m. doc_title doc = Some m \<and> py_strip m \<noteq> [] \<and> 3 < length (py_strip m)) \<Longrightarrow>
   \<not> meta_applies (case doc_title doc of None \<Rightarrow> [] | Some t \<Rightarrow> t)"
  by (cases "doc_title doc") (simp_all add: meta_applies_iff py_strip_def)

lemma cascade_span:
  assumes "\<not> (\<exists>m. doc_title doc = Some m \<and> py_strip m \<noteq> [] \<and> 3 < length (py_strip m))"
    and "doc_pages doc = pg # rest" and "page_dict pg = Inr blocks"
    and "snd (best_span db blocks) \<noteq> []"
  shows "title_cascade db stem doc = Inr (LargestSpan, clean_title db (snd (best_span db blocks)))"
  using meta_unused [OF assms(1)] assms(2-4)
  by (simp add: title_cascade_def span_tier_def Let_def)

lemma cascade_span_only:
  assumes "title_cascade db stem doc = Inr (LargestSpan, t)"
  shows "\<exists>pg rest blocks. doc_pages doc = pg # rest \<and> page_dict pg = Inr blocks \<and>
           snd (best_span db blocks) \<noteq> [] \<and> t = clean_title db (snd (best_span db blocks))"
proof (cases "doc_pages doc")
  case Nil
  with assms show ?thesis
    by (auto simp: title_cascade_def span_tier_def line_tier_def Let_def split: if_splits)
next
  case (Cons pg rest)
  with assms show ?thesis
    by (auto simp: title_cascade_def span_tier_def Let_def
        split: if_splits sum.splits option.splits)
qed

lemma qualifies_iff:
  "qualifies db sp \<longleftrightarrow>
     5 < length (py_strip (case span_text sp of None \<Rightarrow> [] | Some t \<Rightarrow> t)) \<and>
     \<not> py_isupper db (py_strip (case span_text sp of None \<Rightarrow> [] | Some t \<Rightarrow> t))"
  by (auto simp: qualifies_def span_txt_def)

lemma span_winner:
  assumes meta: "\<not> (\<exists>m. doc_title doc = Some m \<and> py_strip m \<noteq> [] \<and> 3 < length (py_strip m))"
    and pages: "doc_pages doc = pg # rest" "page_dict pg = Inr blocks"
    and split: "concat (concat blocks) = pre @ w # post"
    and q: "qualifies db w" and lo: "- 1 < span_sz w"
    and pre: "\<And>x. x \<in> set pre \<Longrightarrow> qualifies db x \<Longrightarrow> span_sz x < span_sz w"
    and post: "\<And>x. x \<in> set post \<Longrightarrow> qualifies db x \<Longrightarrow> span_sz x \<le> span_sz w"
  shows "title_cascade db stem doc = Inr (LargestSpan, clean_title db (span_txt w))"
proof -
  have "foldl (best_step db) (- 1, []) (pre @ w # post) = (span_sz w, span_txt w)"
    by (rule foldl_best_winner) (use q lo pre post in simp_all)
  then have b: "best_span db blocks = (span_sz w, span_txt w)"
    by (simp add: best_span_flat split)
  have "span_txt w \<noteq> []" using q by (simp add: qualifies_def)
  with b show ?thesis
    using cascade_span [OF meta pages, of db stem] by simp
qed

text \<open>
  C7. Let the metadata tier not apply and the layout of the first page be readable.
  A span qualifies exactly when its trimmed text is longer than 5 characters and is not
  entirely upper case. A qualifying span whose size is above that of every qualifying
  span before it and not below that of any qualifying span after it (the first one of
  the largest size) gives the title: its trimmed text, cleaned. A title of this tier
  always comes from a qualifying span. In particular, for spans of sizes 10, 24 and 12
  of which the second is all upper case and the third qualifies, the title is the
  cleaned text of the third. Font sizes are not negative; the scan starts from \<open>-1\<close>.
\<close>

theorem largest_span_tier:
  assumes meta: "\<not> (\<exists>m. doc_title doc = Some m \<and> py_strip m \<noteq> [] \<and> 3 < length (py_strip m))"
    and pages: "doc_pages doc = pg # rest" "page_dict pg = Inr blocks"
  shows
    "(\<forall>sp. qualifies db sp \<longleftrightarrow>
        5 < length (py_strip (case span_text sp of None \<Rightarrow> [] | Some t \<Rightarrow> t)) \<and>
        \<not> py_isupper db (py_strip (case span_text sp of None \<Rightarrow> [] | Some t \<Rightarrow> t))) \<and>
     (\<forall>pre w post.
        concat (concat blocks) = pre @ w # post \<and> qualifies db w \<and> - 1 < span_sz w \<and>
        (\<forall>x\<in>set pre. qualifies db x \<longrightarrow> span_sz x < span_sz w) \<and>
        (\<forall>x\<in>set post. qualifies db x \<longrightarrow> span_sz x \<le> span_sz w) \<longrightarrow>
        title_cascade db stem doc = Inr (LargestSpan, clean_title db (span_txt w))) \<and>
     (\<forall>t. title_cascade db stem doc = Inr (LargestSpan, t) \<longrightarrow>
        (\<exists>w\<in>set (concat (concat blocks)). qualifies db w \<and> t = clean_title db (span_txt w))) \<and>
     (\<forall>a b c.
        blocks = [[[a, b, c]]] \<and> span_sz a = 10 \<and> span_sz b = 24 \<and> span_sz c = 12 \<and>
        py_isupper db (span_txt b) \<and> qualifies db c \<longrightarrow>
        title_cascade db stem doc = Inr (LargestSpan, clean_title db (span_txt c)))"
proof (intro conjI allI impI)
  fix sp
  show "qualifies db sp \<longleftrightarrow>
        5 < length (py_strip (case span_text sp of None \<Rightarrow> [] | Some t \<Rightarrow> t)) \<and>
        \<not> py_isupper db (py_strip (case span_text sp of None \<Rightarrow> [] | Some t \<Rightarrow> t))"
    by (rule qualifies_iff)
next
  fix pre w post
  assume h: "concat (concat blocks) = pre @ w # post \<and> qualifies db w \<and> - 1 < span_sz w \<and>
        (\<forall>x\<in>set pre. qualifies db x \<longrightarrow> span_sz x < span_sz w) \<and>
        (\<forall>x\<in>set post. qualifies db x \<longrightarrow> span_sz x \<le> span_sz w)"
  show "title_cascade db stem doc = Inr (LargestSpan, clean_title db (span_txt w))"
    by (rule span_winner [OF meta pages, of pre w post]) (use h in auto)
next
  fix t
  assume "title_cascade db stem doc = Inr (LargestSpan, t)"
  from cascade_span_only [OF this] pages
  have ne: "snd (best_span db blocks) \<noteq> []" and t: "t = clean_title db (snd (best_span db blocks))"
    by auto
  from best_span_origin [OF ne] obtain sp
    where sp: "sp \<in> set (concat (concat blocks))" "qualifies db sp"
      "best_span db blocks = (span_sz sp, span_txt sp)"
    by blast
  from sp(3) t have "t = clean_title db (span_txt sp)" by simp
  with sp(1,2)
  show "\<exists>w\<in>set (concat (concat blocks)). qualifies db w \<and> t = clean_title db (span_txt w)"
    by blast
next
  fix a b c
  assume h: "blocks = [[[a, b, c]]] \<and> span_sz a = 10 \<and> span_sz b = 24 \<and> span_sz c = 12 \<and>
        py_isupper db (span_txt b) \<and> qualifies db c"
  then have nb: "\<not> qualifies db b" by (simp add: qualifies_def)
  show "title_cascade db stem doc = Inr (LargestSpan, clean_title db (span_txt c))"
    by (rule span_winner [OF meta pages, of "[a, b]" c "[]"]) (use h nb in auto)
qed

lemma no_upper_not_isupper:
  "list_all (\<lambda>c. \<not> cp_isupper db c) s \<Longrightarrow> \<not> py_isupper db s"
  by (auto simp: py_isupper_def list_all_iff list_ex_iff split: list.splits)

text \<open>
  C10. A span whose trimmed text has no cased character is not upper case for
  \<open>str.isupper()\<close>, so it qualifies when it is longer than 5 characters; if its font
  size is strictly the largest of the first page, its cleaned text is the title of the
  largest-span tier.
\<close>

theorem uncased_span_selected:
  assumes meta: "\<not> (\<exists>m. doc_title doc = Some m \<and> py_strip m \<noteq> [] \<and> 3 < length (py_strip m))"
    and pages: "doc_pages doc = pg # rest" "page_dict pg = Inr blocks"
    and split: "concat (concat blocks) = pre @ w # post"
    and uncased: "list_all (\<lambda>c. \<not> cp_isupper db c \<and> \<not> cp_islower db c \<and> \<not> cp_istitle db c) (span_txt w)"
    and long: "5 < length (span_txt w)"
    and largest: "\<forall>x\<in>set (pre @ post). span_sz x < span_sz w"
    and lo: "- 1 < span_sz w"
  shows "\<not> py_isupper db (span_txt w) \<and> qualifies db w \<and>
         title_cascade db stem doc = Inr (LargestSpan, clean_title db (span_txt w))"
proof -
  have "list_all (\<lambda>c. \<not> cp_isupper db c) (span_txt w)"
    using uncased by (simp add: list_all_iff)
  then have nu: "\<not> py_isupper db (span_txt w)" by (rule no_upper_not_isupper)
  with long have q: "qualifies db w" by (auto simp: qualifies_def)
  have before: "span_sz x < span_sz w" if "x \<in> set pre" for x
    using largest that by simp
  have after: "span_sz x \<le> span_sz w" if "x \<in> set post" for x
    using largest that by (simp add: less_imp_le)
  have "title_cascade db stem doc = Inr (LargestSpan, clean_title db (span_txt w))"
    by (rule span_winner [OF meta pages split q lo]) (simp_all add: before after)
  with nu q show ?thesis by simp
qed


lemma cascade_returns:
  assumes "doc_pages doc = [] \<or>
      (\<exists>blocks raw. page_dict (hd (doc_pages doc)) = Inr blocks \<and>
         page_plain (hd (doc_pages doc)) = Inr raw)"
  shows "\<exists>tr t. title_cascade db stem doc = Inr (tr, t)"
  using assms
  by (auto simp: title_cascade_def span_tier_def line_tier_def Let_def
      split: if_splits sum.splits option.splits)

text \<open>
  The result of the cascade, case by case. \<open>meta_usable\<close> is the test of the metadata
  tier, \<open>first_largest\<close> singles out the span the second tier keeps, \<open>no_span\<close> says
  that the second tier keeps none, and \<open>first_long\<close> singles out the line of the third
  tier.
\<close>

lemma meta_usable_applies:
  "meta_usable doc m \<Longrightarrow> meta_applies (case doc_title doc of None \<Rightarrow> [] | Some t \<Rightarrow> t)"
  by (simp add: meta_usable_def meta_applies_iff)

lemma not_meta_usable:
  "\<not> (\<exists>m. meta_usable doc m) \<Longrightarrow>
   \<not> meta_applies (case doc_title doc of None \<Rightarrow> [] | Some t \<Rightarrow> t)"
  by (rule meta_unused) (simp add: meta_usable_def)

lemma tier_meta:
  "meta_usable doc m \<Longrightarrow> title_cascade db stem doc = Inr (Metadata, clean_title db m)"
  using meta_usable_applies [of doc m]
  by (simp add: title_cascade_def meta_usable_def)

lemma tier_no_page:
  "\<not> (\<exists>m. meta_usable doc m) \<Longrightarrow> doc_pages doc = [] \<Longrightarrow>
   title_cascade db stem doc = Inr (FileStem, stem)"
  using not_meta_usable [of doc]
  by (simp add: title_cascade_def span_tier_def line_tier_def)

lemma tier_dict_raises:
  "\<not> (\<exists>m. meta_usable doc m) \<Longrightarrow> doc_pages doc = pg # rest \<Longrightarrow> page_dict pg = Inl e \<Longrightarrow>
   title_cascade db stem doc = Inl e"
  using not_meta_usable [of doc]
  by (simp add: title_cascade_def span_tier_def)

lemma tier_span:
  assumes "\<not> (\<exists>m. meta_usable doc m)" and "doc_pages doc = pg # rest"
    and "page_dict pg = Inr blocks" and "first_largest db (concat (concat blocks)) pre w post"
  shows "title_cascade db stem doc = Inr (LargestSpan, clean_title db (span_txt w))"
proof (rule span_winner [of doc pg rest blocks pre w post db stem])
  show "\<not> (\<exists>m. doc_title doc = Some m \<and> py_strip m \<noteq> [] \<and> 3 < length (py_strip m))"
    using assms(1) by (simp add: meta_usable_def)
qed (use assms(2-4) in \<open>auto simp: first_largest_def\<close>)

lemma no_span_best:
  assumes "no_span db (concat (concat blocks))"
  shows "snd (best_span db blocks) = []"
proof -
  have "foldl (best_step db) (- 1, []) (concat (concat blocks)) = (- 1, [])"
    using foldl_best_origin [of db "(- 1, [])" "concat (concat blocks)"] assms
    by (fastforce simp: no_span_def)
  then show ?thesis by (simp add: best_span_flat)
qed

lemma tier_plain_raises:
  assumes "\<not> (\<exists>m. meta_usable doc m)" and "doc_pages doc = pg # rest"
    and "page_dict pg = Inr blocks" and "no_span db (concat (concat blocks))"
    and "page_plain pg = Inl e"
  shows "title_cascade db stem doc = Inl e"
  using not_meta_usable [OF assms(1)] no_span_best [OF assms(4)] assms(2,3,5)
  by (simp add: title_cascade_def span_tier_def line_tier_def Let_def)

lemma find_first:
  "P L \<Longrightarrow> (\<And>x. x \<in> set before \<Longrightarrow> \<not> P x) \<Longrightarrow> List.find P (before @ L # after) = Some L"
  by (induction before) auto

lemma find_first_long:
  assumes "first_long ls before L after"
  shows "List.find (\<lambda>L. L \<noteq> [] \<and> length L > 5) ls = Some L"
proof -
  from assms have ls: "ls = before @ L # after" and l: "L \<noteq> [] \<and> length L > 5"
    by (auto simp: first_long_def)
  have b: "\<not> (x \<noteq> [] \<and> length x > 5)" if "x \<in> set before" for x
    using assms that by (auto simp: first_long_def)
  have "List.find (\<lambda>L. L \<noteq> [] \<and> length L > 5) (before @ L # after) = Some L"
    using l b by (rule find_first)
  with ls show ?thesis by simp
qed

lemma tier_line:
  assumes "\<not> (\<exists>m. meta_usable doc m)" and "doc_pages doc = pg # rest"
    and "page_dict pg = Inr blocks" and "no_span db (concat (concat blocks))"
    and "page_plain pg = Inr raw" and "first_long (map py_strip (splitlines raw)) before L after"
  shows "title_cascade db stem doc = Inr (FirstLine, clean_title db L)"
  using not_meta_usable [OF assms(1)] no_span_best [OF assms(4)] assms(2,3,5)
    find_first_long [OF assms(6)]
  by (simp add: title_cascade_def span_tier_def line_tier_def Let_def)

lemma tier_stem:
  assumes "\<not> (\<exists>m. meta_usable doc m)" and "doc_pages doc = pg # rest"
    and "page_dict pg = Inr blocks" and "no_span db (concat (concat blocks))"
    and "page_plain pg = Inr raw" and "\<forall>x\<in>set (map py_strip (splitlines raw)). length x \<le> 5"
  shows "title_cascade db stem doc = Inr (FileStem, stem)"
proof -
  have "List.find (\<lambda>L. L \<noteq> [] \<and> length L > 5) (map py_strip (splitlines raw)) = None"
    using assms(6) by (auto simp: find_None_iff)
  then show ?thesis
    using not_meta_usable [OF assms(1)] no_span_best [OF assms(4)] assms(2,3,5)
    by (simp add: title_cascade_def span_tier_def line_tier_def Let_def)
qed

text \<open>The cases are exhaustive.\<close>

lemma first_largest_exists:
  "\<not> no_span db spans \<Longrightarrow> \<exists>pre w post. first_largest db spans pre w post"
proof (induction spans)
  case Nil
  then show ?case by (simp add: no_span_def)
next
  case (Cons x xs)
  show ?case
  proof (cases "no_span db xs")
    case True
    with Cons.prems have x: "qualifies db x" "- 1 < span_sz x"
      by (auto simp: no_span_def)
    have "span_sz y \<le> span_sz x" if "y \<in> set xs" "qualifies db y" for y
      using True that x(2) by (fastforce simp: no_span_def)
    with x have "first_largest db (x # xs) [] x xs"
      by (simp add: first_largest_def)
    then show ?thesis by blast
  next
    case False
    from Cons.IH [OF this] obtain pre w post where f: "first_largest db xs pre w post"
      by blast
    show ?thesis
    proof (cases "qualifies db x \<and> span_sz w \<le> span_sz x")
      case True
      have "span_sz y \<le> span_sz x" if "y \<in> set xs" "qualifies db y" for y
        using f that True by (fastforce simp: first_largest_def)
      moreover have "- 1 < span_sz x"
        using f True by (auto simp: first_largest_def)
      ultimately have "first_largest db (x # xs) [] x xs"
        using True by (simp add: first_largest_def)
      then show ?thesis by blast
    next
      case False
      with f have "first_largest db (x # xs) (x # pre) w post"
        by (auto simp: first_largest_def)
      then show ?thesis by blast
    qed
  qed
qed

lemma first_long_exists:
  "\<not> (\<forall>x\<in>set ls. length x \<le> 5) \<Longrightarrow> \<exists>before L after. first_long ls before L after"
proof -
  assume "\<not> (\<forall>x\<in>set ls. length x \<le> 5)"
  then have "\<exists>x\<in>set ls. 5 < length x" by (auto simp: not_le)
  from split_list_first_prop [OF this] show ?thesis
    by (auto simp: first_long_def not_less)
qed


lemma cascade_cases:
  assumes r: "title_cascade db stem doc = Inr (tr, t)"
  shows "case tr of
      Metadata \<Rightarrow> \<exists>m. meta_usable doc m \<and> t = clean_title db m
    | LargestSpan \<Rightarrow>
        \<not> (\<exists>m. meta_usable doc m) \<and>
        (\<exists>pg rest blocks pre w post.
           doc_pages doc = pg # rest \<and> page_dict pg = Inr blocks \<and>
           first_largest db (concat (concat blocks)) pre w post \<and>
           t = clean_title db (span_txt w))
    | FirstLine \<Rightarrow>
        \<not> (\<exists>m. meta_usable doc m) \<and>
        (\<exists>pg rest blocks raw before L after.
           doc_pages doc = pg # rest \<and> page_dict pg = Inr blocks \<and>
           no_span db (concat (concat blocks)) \<and> page_plain pg = Inr raw \<and>
           first_long (map py_strip (splitlines raw)) before L after \<and>
           t = clean_title db L)
    | FileStem \<Rightarrow>
        \<not> (\<exists>m. meta_usable doc m) \<and> t = stem \<and>
        (doc_pages doc = [] \<or>
         (\<exists>pg rest blocks raw.
            doc_pages doc = pg # rest \<and> page_dict pg = Inr blocks \<and>
            no_span db (concat (concat blocks)) \<and> page_plain pg = Inr raw \<and>
            (\<forall>x\<in>set (map py_strip (splitlines raw)). length x \<le> 5)))"
proof (cases "\<exists>m. meta_usable doc m")
  case True
  then obtain m where m: "meta_usable doc m" by blast
  from tier_meta [OF m, of db stem] r have "tr = Metadata" "t = clean_title db m"
    by simp_all
  with m show ?thesis by auto
next
  case nometa: False
  show ?thesis
  proof (cases "doc_pages doc")
    case Nil
    from tier_no_page [OF nometa Nil, of db stem] r have "tr = FileStem" "t = stem"
      by simp_all
    with nometa Nil show ?thesis by simp
  next
    case (Cons pg rest)
    show ?thesis
    proof (cases "page_dict pg")
      case (Inl e)
      from tier_dict_raises [OF nometa Cons Inl, of db stem] r show ?thesis by simp
    next
      case (Inr blocks)
      show ?thesis
      proof (cases "no_span db (concat (concat blocks))")
        case False
        from first_largest_exists [OF this] obtain pre w post
          where f: "first_largest db (concat (concat blocks)) pre w post" by blast
        from tier_span [OF nometa Cons Inr f, of stem] r
        have "tr = LargestSpan" "t = clean_title db (span_txt w)" by simp_all
        with nometa Cons Inr f show ?thesis by auto
      next
        case none: True
        show ?thesis
        proof (cases "page_plain pg")
          case (Inl e)
          from tier_plain_raises [OF nometa Cons Inr none Inl, of stem] r show ?thesis by simp
        next
          case raw: (Inr raw)
          show ?thesis
          proof (cases "\<forall>x\<in>set (map py_strip (splitlines raw)). length x \<le> 5")
            case True
            from tier_stem [OF nometa Cons Inr none raw True, of stem] r
            have "tr = FileStem" "t = stem" by simp_all
            with nometa Cons Inr none raw True show ?thesis by auto
          next
            case False
            from first_long_exists [OF this] obtain before L after
              where l: "first_long (map py_strip (splitlines raw)) before L after" by blast
            from tier_line [OF nometa Cons Inr none raw l, of stem] r
            have "tr = FirstLine" "t = clean_title db L" by simp_all
            with nometa Cons Inr none raw l show ?thesis by auto
          qed
        qed
      qed
    qed
  qed
qed

text \<open>
  C2, as amended. The title is decided by the first tier whose candidate passes the
  tier's test, and the test is made on the candidate before it is cleaned: the
  metadata title when its trimmed form has more than three characters; otherwise the
  trimmed text of the first span of the first page of largest font size among the
  spans that qualify; otherwise the first trimmed line of the first page with more
  than five characters; otherwise the file stem. The first three tiers return the
  cleaned candidate, the last one the stem as it is, and nothing tests the cleaned
  candidate. The statement gives, for every case, the result of the cascade, and
  conversely, for every title returned, the tier and the candidate it comes from. A
  cleaned candidate is empty exactly when every character of the candidate is white
  space, a hyphen, an en or em dash or a colon, so the title is non-empty whenever the
  candidate kept has another character. When the first page can be read (or there is
  no page) the cascade returns a title.
\<close>

theorem title_cleaned_candidate:
  "(\<forall>cand. clean_title db cand = [] \<longleftrightarrow> list_all is_trail cand) \<and>
   (\<forall>m. meta_usable doc m \<longrightarrow> title_cascade db stem doc = Inr (Metadata, clean_title db m)) \<and>
   (\<not> (\<exists>m. meta_usable doc m) \<longrightarrow>
      (doc_pages doc = [] \<longrightarrow> title_cascade db stem doc = Inr (FileStem, stem)) \<and>
      (\<forall>pg rest. doc_pages doc = pg # rest \<longrightarrow>
         (\<forall>e. page_dict pg = Inl e \<longrightarrow> title_cascade db stem doc = Inl e) \<and>
         (\<forall>blocks. page_dict pg = Inr blocks \<longrightarrow>
            (\<forall>pre w post. first_largest db (concat (concat blocks)) pre w post \<longrightarrow>
               title_cascade db stem doc = Inr (LargestSpan, clean_title db (span_txt w))) \<and>
            (no_span db (concat (concat blocks)) \<longrightarrow>
               (\<forall>e. page_plain pg = Inl e \<longrightarrow> title_cascade db stem doc = Inl e) \<and>
               (\<forall>raw. page_plain pg = Inr raw \<longrightarrow>
                  (\<forall>before L after. first_long (map py_strip (splitlines raw)) before L after \<longrightarrow>
                     title_cascade db stem doc = Inr (FirstLine, clean_title db L)) \<and>
                  ((\<forall>x\<in>set (map py_strip (splitlines raw)). length x \<le> 5) \<longrightarrow>
                     title_cascade db stem doc = Inr (FileStem, stem))))))) \<and>
   (\<forall>tr t. title_cascade db stem doc = Inr (tr, t) \<longrightarrow>
      (case tr of
         Metadata \<Rightarrow> \<exists>m. meta_usable doc m \<and> t = clean_title db m
       | LargestSpan \<Rightarrow>
           \<not> (\<exists>m. meta_usable doc m) \<and>
           (\<exists>pg rest blocks pre w post.
              doc_pages doc = pg # rest \<and> page_dict pg = Inr blocks \<and>
              first_largest db (concat (concat blocks)) pre w post \<and>
              t = clean_title db (span_txt w))
       | FirstLine \<Rightarrow>
           \<not> (\<exists>m. meta_usable doc m) \<and>
           (\<exists>pg rest blocks raw before L after.
              doc_pages doc = pg # rest \<and> page_dict pg = Inr blocks \<and>
              no_span db (concat (concat blocks)) \<and> page_plain pg = Inr raw \<and>
              first_long (map py_strip (splitlines raw)) before L after \<and>
              t = clean_title db L)
       | FileStem \<Rightarrow>
           \<not> (\<exists>m. meta_usable doc m) \<and> t = stem \<and>
           (doc_pages doc = [] \<or>
            (\<exists>pg rest blocks raw.
               doc_pages doc = pg # rest \<and> page_dict pg = Inr blocks \<and>
               no_span db (concat (concat blocks)) \<and> page_plain pg = Inr raw \<and>
               (\<forall>x\<in>set (map py_strip (splitlines raw)). length x \<le> 5))))) \<and>
   (doc_pages doc = [] \<or>
      (\<exists>blocks raw. page_dict (hd (doc_pages doc)) = Inr blocks \<and>
         page_plain (hd (doc_pages doc)) = Inr raw) \<longrightarrow>
    (\<exists>tr t. title_cascade db stem doc = Inr (tr, t)))"
proof -
  have a: "\<forall>cand. clean_title db cand = [] \<longleftrightarrow> list_all is_trail cand"
    by (simp add: clean_title_Nil_iff)
  have b: "\<forall>m. meta_usable doc m \<longrightarrow> title_cascade db stem doc = Inr (Metadata, clean_title db m)"
    by (simp add: tier_meta)
  have c: "\<not> (\<exists>m. meta_usable doc m) \<longrightarrow>
      (doc_pages doc = [] \<longrightarrow> title_cascade db stem doc = Inr (FileStem, stem)) \<and>
      (\<forall>pg rest. doc_pages doc = pg # rest \<longrightarrow>
         (\<forall>e. page_dict pg = Inl e \<longrightarrow> title_cascade db stem doc = Inl e) \<and>
         (\<forall>blocks. page_dict pg = Inr blocks \<longrightarrow>
            (\<forall>pre w post. first_largest db (concat (concat blocks)) pre w post \<longrightarrow>
               title_cascade db stem doc = Inr (LargestSpan, clean_title db (span_txt w))) \<and>
            (no_span db (concat (concat blocks)) \<longrightarrow>
               (\<forall>e. page_plain pg = Inl e \<longrightarrow> title_cascade db stem doc = Inl e) \<and>
               (\<forall>raw. page_plain pg = Inr raw \<longrightarrow>
                  (\<forall>before L after. first_long (map py_strip (splitlines raw)) before L after \<longrightarrow>
                     title_cascade db stem doc = Inr (FirstLine, clean_title db L)) \<and>
                  ((\<forall>x\<in>set (map py_strip (splitlines raw)). length x \<le> 5) \<longrightarrow>
                     title_cascade db stem doc = Inr (FileStem, stem))))))"
    using tier_no_page [of doc db stem] tier_dict_raises [of doc _ _ _ db stem]
      tier_span [of doc _ _ _ db _ _ _ stem] tier_plain_raises [of doc _ _ _ db _ stem]
      tier_line [of doc _ _ _ db _ _ _ _ stem] tier_stem [of doc _ _ _ db _ stem]
    by (intro impI conjI allI) blast+
  have d: "\<forall>tr t. title_cascade db stem doc = Inr (tr, t) \<longrightarrow>
      (case tr of
         Metadata \<Rightarrow> \<exists>m. meta_usable doc m \<and> t = clean_title db m
       | LargestSpan \<Rightarrow>
           \<not> (\<exists>m. meta_usable doc m) \<and>
           (\<exists>pg rest blocks pre w post.
              doc_pages doc = pg # rest \<and> page_dict pg = Inr blocks \<and>
              first_largest db (concat (concat blocks)) pre w post \<and>
              t = clean_title db (span_txt w))
       | FirstLine \<Rightarrow>
           \<not> (\<exists>m. meta_usable doc m) \<and>
           (\<exists>pg rest blocks raw before L after.
              doc_pages doc = pg # rest \<and> page_dict pg = Inr blocks \<and>
              no_span db (concat (concat blocks)) \<and> page_plain pg = Inr raw \<and>
              first_long (map py_strip (splitlines raw)) before L after \<and>
              t = clean_title db L)
       | FileStem \<Rightarrow>
           \<not> (\<exists>m. meta_usable doc m) \<and> t = stem \<and>
           (doc_pages doc = [] \<or>
            (\<exists>pg rest blocks raw.
               doc_pages doc = pg # rest \<and> page_dict pg = Inr blocks \<and>
               no_span db (concat (concat blocks)) \<and> page_plain pg = Inr raw \<and>
               (\<forall>x\<in>set (map py_strip (splitlines raw)). length x \<le> 5))))"
    using cascade_cases [of db stem doc] by blast
  have e: "doc_pages doc = [] \<or>
      (\<exists>blocks raw. page_dict (hd (doc_pages doc)) = Inr blocks \<and>
         page_plain (hd (doc_pages doc)) = Inr raw) \<longrightarrow>
    (\<exists>tr t. title_cascade db stem doc = Inr (tr, t))"
    using cascade_returns [of doc db stem] by blast
  from a b c d e show ?thesis by (intro conjI)
qed

lemmas cascade_defs =
  title_cascade_def meta_applies_def span_tier_def line_tier_def best_span_def best_step_def
  qualifies_def span_txt_def span_sz_def py_isupper_def splitlines_def
  guess_title_from_first_page_def

text \<open>
  C2 as stated fails: a metadata title of four hyphens passes the test of the metadata
  tier and is cleaned to the empty string, which is returned.
\<close>

theorem title_empty_counterexample:
  "guess_title_from_first_page ucd_ascii
     \<lparr>pdf_name = asc ''a.pdf'', pdf_stem = asc ''a'',
      pdf_open = Inr \<lparr>doc_title = Some (asc ''----''), doc_pages = []\<rparr>,
      pdf_move = None\<rparr> = Inr []"
  by (simp add: cascade_defs regex_defs char_class_defs title_defs cong: first_some_weak_cong)

theorem title_cleaned_candidate_witness:
  "\<not> (\<exists>m. meta_usable
           \<lparr>doc_title = None,
            doc_pages = [\<lparr>page_dict = Inr [],
                          page_plain = Inr ([10] @ asc ''  Methods: '' @ [10] @ asc ''short'' @ [10])\<rparr>]\<rparr>
           m) \<and>
   no_span ucd_ascii (concat (concat [])) \<and>
   first_long (map py_strip (splitlines ([10] @ asc ''  Methods: '' @ [10] @ asc ''short'' @ [10])))
     [[]] (asc ''Methods:'') [asc ''short''] \<and>
   title_cascade ucd_ascii (asc ''paper'')
     \<lparr>doc_title = None,
      doc_pages = [\<lparr>page_dict = Inr [],
                    page_plain = Inr ([10] @ asc ''  Methods: '' @ [10] @ asc ''short'' @ [10])\<rparr>]\<rparr>
     = Inr (FirstLine, asc ''Methods'') \<and>
   \<not> list_all is_trail (asc ''Methods:'')"
proof -
  let ?raw = "[10] @ asc ''  Methods: '' @ [10] @ asc ''short'' @ [10]"
  let ?pg = "\<lparr>page_dict = Inr [], page_plain = Inr ?raw\<rparr>"
  let ?D = "\<lparr>doc_title = None, doc_pages = [?pg]\<rparr>"
  have m: "\<not> (\<exists>m. meta_usable ?D m)"
    by (simp add: meta_usable_def)
  have n: "no_span ucd_ascii (concat (concat []))"
    by (simp add: no_span_def)
  have l: "first_long (map py_strip (splitlines ?raw)) [[]] (asc ''Methods:'') [asc ''short'']"
    by (simp add: first_long_def splitlines_def py_strip_def asc_def char_class_defs)
  have c: "clean_title ucd_ascii (asc ''Methods:'') = asc ''Methods''"
    by (simp add: regex_defs char_class_defs title_defs cong: first_some_weak_cong)
  have t: "\<not> list_all is_trail (asc ''Methods:'')"
    by (simp add: asc_def is_trail_def is_space_def)
  note th = title_cleaned_candidate [of ucd_ascii ?D "asc ''paper''"]
  have p: "doc_pages ?D = ?pg # []" and d: "page_dict ?pg = Inr []" and r: "page_plain ?pg = Inr ?raw"
    by simp_all
  from th m p d n r l
  have "title_cascade ucd_ascii (asc ''paper'') ?D = Inr (FirstLine, clean_title ucd_ascii (asc ''Methods:''))"
    by blast
  with m n l c t show ?thesis by simp
qed

theorem largest_span_tier_witness:
  "py_isupper ucd_ascii
     (span_txt \<lparr>span_text = Some (asc ''BIG BANNER HEADLINE''), span_size = Some 24\<rparr>) \<and>
   qualifies ucd_ascii
     \<lparr>span_text = Some (asc ''A Study of Regulatory Elements''), span_size = Some 12\<rparr> \<and>
   title_cascade ucd_ascii (asc ''paper'')
     \<lparr>doc_title = None,
      doc_pages =
        [\<lparr>page_dict = Inr [[[\<lparr>span_text = Some (asc ''Journal of Things''), span_size = Some 10\<rparr>,
                               \<lparr>span_text = Some (asc ''BIG BANNER HEADLINE''), span_size = Some 24\<rparr>,
                               \<lparr>span_text = Some (asc ''A Study of Regulatory Elements''),
                                span_size = Some 12\<rparr>]]],
          page_plain = Inr []\<rparr>]\<rparr>
     = Inr (LargestSpan, asc ''A Study of Regulatory Elements'')"
proof -
  let ?a = "\<lparr>span_text = Some (asc ''Journal of Things''), span_size = Some (10::real)\<rparr>"
  let ?b = "\<lparr>span_text = Some (asc ''BIG BANNER HEADLINE''), span_size = Some (24::real)\<rparr>"
  let ?c = "\<lparr>span_text = Some (asc ''A Study of Regulatory Elements''), span_size = Some (12::real)\<rparr>"
  let ?pg = "\<lparr>page_dict = Inr [[[?a, ?b, ?c]]], page_plain = Inr []\<rparr>"
  let ?D = "\<lparr>doc_title = None, doc_pages = [?pg]\<rparr>"
  have up: "py_isupper ucd_ascii (span_txt ?b)"
    by (simp add: span_txt_def py_isupper_def py_strip_def asc_def char_class_defs)
  have q: "qualifies ucd_ascii ?c"
    by (simp add: qualifies_def span_txt_def py_isupper_def py_strip_def asc_def char_class_defs)
  have c: "clean_title ucd_ascii (span_txt ?c) = asc ''A Study of Regulatory Elements''"
    by (simp add: span_txt_def regex_defs char_class_defs title_defs cong: first_some_weak_cong)
  have sz: "span_sz ?a = 10" "span_sz ?b = 24" "span_sz ?c = 12"
    by (simp_all add: span_sz_def)
  have "\<not> (\<exists>m. doc_title ?D = Some m \<and> py_strip m \<noteq> [] \<and> 3 < length (py_strip m))"
    by simp
  moreover have "doc_pages ?D = ?pg # []" by simp
  moreover have "page_dict ?pg = Inr [[[?a, ?b, ?c]]]" by simp
  ultimately have "title_cascade ucd_ascii (asc ''paper'') ?D =
      Inr (LargestSpan, clean_title ucd_ascii (span_txt ?c))"
    using largest_span_tier [of ?D ?pg "[]" "[[[?a, ?b, ?c]]]" ucd_ascii "asc ''paper''"] up q sz
    by blast
  with up q c show ?thesis by simp
qed

theorem uncased_span_selected_witness:
  "title_cascade ucd_ascii (asc ''paper'')
     \<lparr>doc_title = None,
      doc_pages =
        [\<lparr>page_dict = Inr [[[\<lparr>span_text = Some (asc ''Intro text here''), span_size = Some 8\<rparr>],
                              [\<lparr>span_text = Some (asc '' 2023-10-05 / 17 ''), span_size = Some 30\<rparr>]]],
          page_plain = Inr []\<rparr>]\<rparr>
     = Inr (LargestSpan, asc ''2023-10-05 / 17'')"
proof -
  let ?a = "\<lparr>span_text = Some (asc ''Intro text here''), span_size = Some (8::real)\<rparr>"
  let ?w = "\<lparr>span_text = Some (asc '' 2023-10-05 / 17 ''), span_size = Some (30::real)\<rparr>"
  let ?pg = "\<lparr>page_dict = Inr [[[?a], [?w]]], page_plain = Inr []\<rparr>"
  let ?D = "\<lparr>doc_title = None, doc_pages = [?pg]\<rparr>"
  have t: "span_txt ?w = asc ''2023-10-05 / 17''"
    by (simp add: span_txt_def py_strip_def asc_def char_class_defs)
  have c: "clean_title ucd_ascii (asc ''2023-10-05 / 17'') = asc ''2023-10-05 / 17''"
    by (simp add: regex_defs char_class_defs title_defs cong: first_some_weak_cong)
  have 1: "\<not> (\<exists>m. doc_title ?D = Some m \<and> py_strip m \<noteq> [] \<and> 3 < length (py_strip m))"
    by simp
  have 2: "doc_pages ?D = ?pg # []" by simp
  have 3: "page_dict ?pg = Inr [[[?a], [?w]]]" by simp
  have 4: "concat (concat [[[?a], [?w]]]) = [?a] @ ?w # []" by simp
  have 5: "list_all (\<lambda>c. \<not> cp_isupper ucd_ascii c \<and> \<not> cp_islower ucd_ascii c \<and>
              \<not> cp_istitle ucd_ascii c) (span_txt ?w)"
    unfolding t by (simp add: asc_def char_class_defs)
  have 6: "5 < length (span_txt ?w)"
    unfolding t by (simp add: asc_def)
  have 7: "\<forall>x\<in>set ([?a] @ []). span_sz x < span_sz ?w"
    by (simp add: span_sz_def)
  have 8: "- 1 < span_sz ?w" by (simp add: span_sz_def)
  show ?thesis
    using uncased_span_selected [OF 1 2 3 4 5 6 7 8, of "asc ''paper''"] t c by simp
qed

section \<open>The deduplication of \<open>find_accessions\<close>\<close>

lemma set_first_occ [simp]: "set (first_occ xs) = set xs"
  by (induction xs rule: first_occ.induct) auto

lemma distinct_first_occ [simp]: "distinct (first_occ xs)"
  by (induction xs rule: first_occ.induct) auto

lemma filter_notin_removeAll:
  "filter (\<lambda>y. y \<notin> set (removeAll x xs)) (removeAll x ys) = filter (\<lambda>y. y \<notin> set (x # xs)) ys"
  by (induction ys) auto

lemma first_occ_append:
  "first_occ (xs @ ys) = first_occ xs @ first_occ (filter (\<lambda>y. y \<notin> set xs) ys)"
proof (induction xs arbitrary: ys rule: first_occ.induct)
  case 1
  show ?case by simp
next
  case (2 x xs)
  have "first_occ ((x # xs) @ ys) = x # first_occ (removeAll x xs @ removeAll x ys)"
    by simp
  also have "\<dots> = x # first_occ (removeAll x xs) @
      first_occ (filter (\<lambda>y. y \<notin> set (removeAll x xs)) (removeAll x ys))"
    by (simp only: "2.IH")
  also have "\<dots> = first_occ (x # xs) @ first_occ (filter (\<lambda>y. y \<notin> set (x # xs)) ys)"
    by (simp only: filter_notin_removeAll first_occ.simps append_Cons)
  finally show ?case .
qed

lemma first_occ_append_disjoint:
  "set xs \<inter> set ys = {} \<Longrightarrow> first_occ (xs @ ys) = first_occ xs @ first_occ ys"
proof -
  assume d: "set xs \<inter> set ys = {}"
  then have "filter (\<lambda>y. y \<notin> set xs) ys = ys"
    by (auto simp: filter_id_conv)
  then show ?thesis by (simp add: first_occ_append)
qed

lemma removeAll_filter_notin:
  "removeAll k (filter (\<lambda>x. x \<notin> set f) ks) = filter (\<lambda>x. x \<notin> set (f @ [k])) ks"
  by (induction ks) auto

lemma foldl_add_key:
  "foldl add_key (f, set f) ks = (f @ first_occ (filter (\<lambda>k. k \<notin> set f) ks), set f \<union> set ks)"
proof (induction ks arbitrary: f)
  case Nil
  show ?case by simp
next
  case (Cons k ks)
  show ?case
  proof (cases "k \<in> set f")
    case True
    then have "add_key (f, set f) k = (f, set f)"
      by (simp add: add_key_def)
    with True Cons [of f] show ?thesis by auto
  next
    case False
    then have "add_key (f, set f) k = (f @ [k], set (f @ [k]))"
      by (simp add: add_key_def)
    with False Cons [of "f @ [k]"] show ?thesis
      by (auto simp: removeAll_filter_notin)
  qed
qed

lemma add_match_add_key:
  "add_match db l st m = add_key st (l, py_upper db (group (snd m) 1))"
  by (simp add: add_match_def add_key_def Let_def)

lemma scan_target_keys:
  "scan_target db l rx st target = foldl add_key st (rule_hits db l rx target)"
proof -
  have "add_match db l = (\<lambda>st m. add_key st (l, py_upper db (group (snd m) 1)))"
    by (intro ext) (rule add_match_add_key)
  then show ?thesis
    by (simp add: scan_target_def rule_hits_def foldl_map)
qed

lemma foldl_foldl_map_concat:
  "foldl (\<lambda>st x. foldl f st (g x)) st xs = foldl f st (concat (map g xs))"
  by (induction xs arbitrary: st) auto

lemma scan_rule_keys:
  "scan_rule db targets st rule =
     foldl add_key st (concat (map (rule_hits db (fst rule) (snd rule)) targets))"
proof -
  have "scan_rule db targets st rule =
      foldl (\<lambda>st t. foldl add_key st (rule_hits db (fst rule) (snd rule) t)) st targets"
    by (simp add: scan_rule_def scan_target_keys [abs_def])
  then show ?thesis by (simp add: foldl_foldl_map_concat)
qed

lemma rules_keys:
  "foldl (scan_rule db targets) st rules =
     foldl add_key st
       (concat (map (\<lambda>rule. concat (map (rule_hits db (fst rule) (snd rule)) targets)) rules))"
proof -
  have "foldl (scan_rule db targets) st rules =
      foldl (\<lambda>st rule. foldl add_key st
        (concat (map (rule_hits db (fst rule) (snd rule)) targets))) st rules"
    by (simp add: scan_rule_keys [abs_def])
  then show ?thesis by (simp add: foldl_foldl_map_concat)
qed

lemma candidates_alt:
  "candidates db txt =
     concat (map (\<lambda>rule. concat (map (rule_hits db (fst rule) (snd rule)) [txt, dehyphen db txt]))
       COMPILED)"
  unfolding candidates_def
  by (rule arg_cong [where f = concat], rule map_cong) auto

lemma find_accessions_first_occ: "find_accessions db txt = first_occ (candidates db txt)"
proof -
  have "foldl (scan_rule db [txt, dehyphen db txt]) ([], set []) COMPILED =
      foldl add_key ([], set []) (candidates db txt)"
    unfolding candidates_alt by (rule rules_keys)
  then show ?thesis
    using foldl_add_key [of "[]" "candidates db txt"]
    by (simp add: find_accessions_def Let_def)
qed


lemma rule_hits_label: "h \<in> set (rule_hits db l rx t) \<Longrightarrow> fst h = l"
  by (auto simp: rule_hits_def)

lemma first_occ_rules:
  assumes lab: "\<And>l rx h. h \<in> set (H l rx) \<Longrightarrow> fst h = l"
  shows "distinct (map fst rules) \<Longrightarrow>
     first_occ (concat (map (\<lambda>(l, rx). H l rx) rules)) =
     concat (map (\<lambda>(l, rx). first_occ (H l rx)) rules)"
proof (induction rules)
  case Nil
  show ?case by simp
next
  case (Cons r rules)
  obtain l rx where r: "r = (l, rx)" by (cases r)
  have "set (H l rx) \<inter> set (concat (map (\<lambda>(l, rx). H l rx) rules)) = {}"
  proof (rule ccontr)
    assume "set (H l rx) \<inter> set (concat (map (\<lambda>(l, rx). H l rx) rules)) \<noteq> {}"
    then obtain h l' rx' where h: "h \<in> set (H l rx)" "(l', rx') \<in> set rules" "h \<in> set (H l' rx')"
      by auto
    have "fst h = l" using h(1) by (rule lab)
    moreover have "fst h = l'" using h(3) by (rule lab)
    ultimately have "l' = l" by simp
    with h(2) have "l \<in> fst ` set rules" by force
    with Cons.prems r show False by simp
  qed
  then have "first_occ (H l rx @ concat (map (\<lambda>(l, rx). H l rx) rules)) =
      first_occ (H l rx) @ first_occ (concat (map (\<lambda>(l, rx). H l rx) rules))"
    by (rule first_occ_append_disjoint)
  with Cons r show ?case by simp
qed

lemma distinct_labels: "distinct (map fst COMPILED)"
  by (simp add: COMPILED_def PATTERNS_def asc_def)

lemmas accession_defs =
  find_accessions_def scan_rule_def scan_target_def add_match_def COMPILED_def PATTERNS_def
  py_upper_def dehyphen_rx_def dehyphen_def

text \<open>
  C5. The hits are the candidates with only the first occurrence of every (label,
  identifier) pair kept, the candidates being taken rule by rule in registry order,
  raw surface before dehyphenated surface. Equivalently the result is, rule after rule
  in registry order, the distinct hits of the rule on the raw text in the order of the
  matches, followed by the distinct hits found only on the dehyphenated text.
\<close>

theorem hits_in_registry_order:
  "find_accessions db txt = first_occ (candidates db txt) \<and>
   find_accessions db txt =
     concat (map (\<lambda>(label, rx).
                    first_occ (rule_hits db label rx txt) @
                    first_occ (filter (\<lambda>h. h \<notin> set (rule_hits db label rx txt))
                                 (rule_hits db label rx (dehyphen db txt))))
               COMPILED)"
proof -
  let ?H = "\<lambda>l rx. rule_hits db l rx txt @ rule_hits db l rx (dehyphen db txt)"
  have "first_occ (concat (map (\<lambda>(l, rx). ?H l rx) COMPILED)) =
      concat (map (\<lambda>(l, rx). first_occ (?H l rx)) COMPILED)"
    by (rule first_occ_rules [OF _ distinct_labels]) (auto dest: rule_hits_label)
  then show ?thesis
    by (simp add: find_accessions_first_occ candidates_def first_occ_append)
qed

section \<open>Matching does not see the case of ASCII letters\<close>

lemma variant_refl [simp]: "case_variant c c"
  by (simp add: case_variant_def)

lemma variant_fold: "case_variant c d \<Longrightarrow> ci_fold c = ci_fold d"
  by (auto simp: case_variant_def)

lemma variant_plain: "case_variant c d \<Longrightarrow> \<not> ascii_letter k \<Longrightarrow> c = k \<longleftrightarrow> d = k"
  by (auto simp: case_variant_def)

lemma variant_letter: "case_variant c d \<Longrightarrow> d = c \<or> (ascii_letter c \<and> ascii_letter d)"
  by (auto simp: case_variant_def)

lemma letter_decimal: "ascii_letter c \<Longrightarrow> \<not> is_decimal db c"
  by (auto simp: ascii_letter_def is_decimal_def)

lemma letter_word: "ascii_letter c \<Longrightarrow> is_word db c"
  by (auto simp: ascii_letter_def is_word_def is_alnum_def)

lemma letter_space: "ascii_letter c \<Longrightarrow> \<not> is_space c"
  by (auto simp: ascii_letter_def is_space_def)

lemma variant_decimal: "case_variant c d \<Longrightarrow> is_decimal db c = is_decimal db d"
  using letter_decimal variant_letter by blast

lemma variant_word: "case_variant c d \<Longrightarrow> is_word db c = is_word db d"
  using letter_word variant_letter by blast

lemma variant_space: "case_variant c d \<Longrightarrow> is_space c = is_space d"
  using letter_space variant_letter by blast

lemma letter_fold: "ascii_letter c \<Longrightarrow> ci_fold c = (if c \<le> 90 then c + 32 else c)"
  by (auto simp: ascii_letter_def ci_fold_def)

lemma letter_upper: "ascii_letter c \<Longrightarrow> cp_upper db c = [if c \<le> 90 then c else c - 32]"
  by (auto simp: ascii_letter_def cp_upper_def)

lemma variant_upper: "case_variant c d \<Longrightarrow> cp_upper db c = cp_upper db d"
proof (cases "d = c")
  case True
  then show ?thesis by simp
next
  case False
  assume "case_variant c d"
  with False have l: "ascii_letter c" "ascii_letter d" and f: "ci_fold c = ci_fold d"
    by (auto simp: case_variant_def)
  from f l have "(if c \<le> 90 then c + 32 else c) = (if d \<le> 90 then d + 32 else d)"
    by (simp add: letter_fold)
  moreover from l have "65 \<le> c" "65 \<le> d" "c \<le> 90 \<or> 97 \<le> c" "d \<le> 90 \<or> 97 \<le> d"
    by (auto simp: ascii_letter_def)
  ultimately have "(if c \<le> 90 then c else c - 32) = (if d \<le> 90 then d else d - 32)"
    by (auto split: if_splits)
  with l show ?thesis by (simp add: letter_upper)
qed


lemma variant_in_cls:
  assumes v: "case_variant c d" and ok: "ic \<or> cls_plain cl"
  shows "in_cls db ic c cl = in_cls db ic d cl"
proof (cases cl)
  case (Chr k)
  show ?thesis
  proof (cases ic)
    case True
    with Chr show ?thesis using variant_fold [OF v] by simp
  next
    case False
    with ok Chr have "\<not> ascii_letter k" by simp
    with False Chr show ?thesis using variant_plain [OF v, of k] by simp
  qed
next
  case (Rng a b)
  show ?thesis
  proof (cases ic)
    case True
    with Rng show ?thesis using variant_fold [OF v] by simp
  next
    case False
    with ok Rng have plain: "\<not> ascii_letter k" if "a \<le> k" "k \<le> b" for k
      using that by (auto simp: list_all_iff simp del: upt_Suc)
    have "a \<le> c \<and> c \<le> b \<longleftrightarrow> a \<le> d \<and> d \<le> b"
    proof (cases "d = c")
      case True
      then show ?thesis by simp
    next
      case False
      with v have "ascii_letter c" "ascii_letter d" by (auto simp: case_variant_def)
      with plain show ?thesis by blast
    qed
    with False Rng show ?thesis by simp
  qed
next
  case Digit
  then show ?thesis using variant_decimal [OF v] by simp
next
  case Word
  then show ?thesis using variant_word [OF v] by simp
next
  case Space
  then show ?thesis using variant_space [OF v] by simp
qed

lemma variant_in_set:
  assumes v: "case_variant c d" and ok: "ic \<or> list_all cls_plain cs"
  shows "in_set db ic cs c = in_set db ic cs d"
proof -
  have "in_cls db ic c cl = in_cls db ic d cl" if "cl \<in> set cs" for cl
  proof (rule variant_in_cls [OF v])
    show "ic \<or> cls_plain cl" using ok that by (auto simp: list_all_iff)
  qed
  then show ?thesis
    by (simp add: in_set_def list_ex_iff)
qed

lemma variant_takeWhile_length:
  assumes "list_all2 case_variant s s'" and "\<And>c d. case_variant c d \<Longrightarrow> P c = P d"
  shows "length (takeWhile P s) = length (takeWhile P s')"
  using assms(1)
proof (induction rule: list_all2_induct)
  case Nil
  show ?case by simp
next
  case (Cons c s d s')
  then show ?case using assms(2) [of c d] by simp
qed

lemma first_some_rel:
  "(\<And>x. x \<in> set xs \<Longrightarrow> rel_option Q (f x) (g x)) \<Longrightarrow>
   rel_option Q (first_some f xs) (first_some g xs)"
proof (induction xs)
  case Nil
  show ?case by simp
next
  case (Cons x xs)
  have "rel_option Q (f x) (g x)" using Cons.prems by simp
  moreover have "rel_option Q (first_some f xs) (first_some g xs)"
    using Cons by simp
  ultimately show ?case
    by (cases "f x"; cases "g x") auto
qed

lemma variant_at_dollar:
  assumes a: "list_all2 case_variant s s'"
  shows "at_dollar ml s = at_dollar ml s'"
proof (cases s)
  case Nil
  with a show ?thesis by simp
next
  case (Cons c t)
  with a obtain d t' where s': "s' = d # t'" and cd: "case_variant c d"
    and tt: "list_all2 case_variant t t'"
    by (auto simp: list_all2_Cons1)
  have n: "\<not> ascii_letter 10" by (simp add: ascii_letter_def)
  have "c = 10 \<longleftrightarrow> d = 10" using variant_plain [OF cd n] .
  moreover have "t = [] \<longleftrightarrow> t' = []" using tt by auto
  ultimately show ?thesis using Cons s' by (simp add: at_dollar_def)
qed


lemma variant_cur_append:
  assumes "rel_option (list_all2 case_variant) cur cur'" and "list_all2 case_variant x x'"
  shows "rel_option (list_all2 case_variant)
           (map_option (\<lambda>g. g @ x) cur) (map_option (\<lambda>g. g @ x') cur')"
  using assms by (cases cur; cases cur') (auto intro: list_all2_appendI)

lemma variant_cur_close:
  assumes "rel_option (list_all2 case_variant) cur cur'"
  shows "list_all2 case_variant
           (case cur of None \<Rightarrow> [] | Some g \<Rightarrow> g) (case cur' of None \<Rightarrow> [] | Some g \<Rightarrow> g)"
  using assms by (cases cur; cases cur') auto

lemma re_match_variant:
  assumes "list_all (case_blind ic) ts" and "list_all2 case_variant s s'"
    and "rel_option (list_all2 case_variant) cur cur'"
    and "list_all2 (list_all2 case_variant) caps caps'"
  shows "rel_option match_variant
           (re_match ts db ic ml ban cur caps s) (re_match ts db ic ml ban cur' caps' s')"
  using assms
proof (induction ts arbitrary: s s' cur cur' caps caps')
  case Nil
  then have "length s = length s'" by (auto dest: list_all2_lengthD)
  with Nil show ?case by (simp add: match_variant_def)
next
  case (Cons t ts)
  from Cons.prems(1) have blind: "case_blind ic t" and rest: "list_all (case_blind ic) ts"
    by simp_all
  show ?case
  proof (cases t)
    case Open
    have "rel_option (list_all2 case_variant) (Some []) (Some [])" by simp
    from Cons.IH [OF rest Cons.prems(2) this Cons.prems(4)] Open show ?thesis by simp
  next
    case Close
    have "list_all2 (list_all2 case_variant)
            (caps @ [case cur of None \<Rightarrow> [] | Some g \<Rightarrow> g])
            (caps' @ [case cur' of None \<Rightarrow> [] | Some g \<Rightarrow> g])"
      using Cons.prems(4) variant_cur_close [OF Cons.prems(3)]
      by (intro list_all2_appendI) simp_all
    moreover have "rel_option (list_all2 case_variant) None None" by simp
    ultimately show ?thesis
      using Cons.IH [OF rest Cons.prems(2)] Close by simp
  next
    case Dollar
    have "at_dollar ml s = at_dollar ml s'"
      using Cons.prems(2) by (rule variant_at_dollar)
    with Cons.IH [OF rest Cons.prems(2,3,4)] Dollar show ?thesis by simp
  next
    case (Rep cs lo hi)
    let ?P = "in_set db ic cs"
    from blind Rep have ok: "ic \<or> list_all cls_plain cs" by simp
    have P: "?P c = ?P d" if "case_variant c d" for c d
      using that ok by (rule variant_in_set)
    have run: "length (takeWhile ?P s) = length (takeWhile ?P s')"
      using Cons.prems(2) P by (rule variant_takeWhile_length)
    let ?kmax = "case hi of None \<Rightarrow> length (takeWhile ?P s) | Some h \<Rightarrow> min (length (takeWhile ?P s)) h"
    let ?kmax' = "case hi of None \<Rightarrow> length (takeWhile ?P s') | Some h \<Rightarrow> min (length (takeWhile ?P s')) h"
    have eq: "?kmax' = ?kmax" by (cases hi) (simp_all add: run)
    have step: "rel_option match_variant
        (re_match ts db ic ml ban (map_option (\<lambda>g. g @ take k s) cur) caps (drop k s))
        (re_match ts db ic ml ban (map_option (\<lambda>g. g @ take k s') cur') caps' (drop k s'))" for k
    proof (rule Cons.IH [OF rest])
      show "list_all2 case_variant (drop k s) (drop k s')"
        using Cons.prems(2) by (rule list_all2_dropI)
      show "rel_option (list_all2 case_variant)
          (map_option (\<lambda>g. g @ take k s) cur) (map_option (\<lambda>g. g @ take k s') cur')"
        using Cons.prems(3) list_all2_takeI [OF Cons.prems(2)] by (rule variant_cur_append)
      show "list_all2 (list_all2 case_variant) caps caps'" by (rule Cons.prems(4))
    qed
    have "rel_option match_variant
        (first_some (\<lambda>k. re_match ts db ic ml ban (map_option (\<lambda>g. g @ take k s) cur) caps (drop k s))
           (rev [lo..<Suc ?kmax]))
        (first_some (\<lambda>k. re_match ts db ic ml ban (map_option (\<lambda>g. g @ take k s') cur') caps' (drop k s'))
           (rev [lo..<Suc ?kmax']))"
      unfolding eq by (rule first_some_rel) (rule step)
    then show ?thesis
      using Rep by (simp add: Let_def del: upt_Suc)
  qed
qed


lemma piece_variant_refl: "piece_variant p p"
  by (cases p) (simp_all add: list_all2_refl)

lemma scan_None:
  "re_match (rx_toks rx) db (rx_icase rx) (rx_mline rx)
     (if ma then Some (length s) else None) None [] s = None \<Longrightarrow>
   scan db rx ma s = (case s of [] \<Rightarrow> [] | c # t \<Rightarrow> Gap c # scan db rx False t)"
  by (subst scan.simps) simp

lemma scan_Some:
  "re_match (rx_toks rx) db (rx_icase rx) (rx_mline rx)
     (if ma then Some (length s) else None) None [] s = Some (gs, rest) \<Longrightarrow>
   scan db rx ma s =
     (if 0 < length s - length rest
      then Hit (take (length s - length rest) s) gs # scan db rx False (drop (length s - length rest) s)
      else if ma then [Hit [] gs] else Hit [] gs # scan db rx True s)"
  by (subst scan.simps) (simp add: Let_def)

lemma scan_variant:
  assumes blind: "list_all (case_blind (rx_icase rx)) (rx_toks rx)"
  shows "list_all2 case_variant s s' \<Longrightarrow>
         list_all2 piece_variant (scan db rx ma s) (scan db rx ma s')"
proof (induction "2 * length s + (if ma then 0 else 1)" arbitrary: s s' ma rule: less_induct)
  case less
  note v = less.prems
  have len: "length s' = length s" using v by (simp add: list_all2_lengthD)
  let ?m = "re_match (rx_toks rx) db (rx_icase rx) (rx_mline rx)
              (if ma then Some (length s) else None) None [] s"
  let ?m' = "re_match (rx_toks rx) db (rx_icase rx) (rx_mline rx)
              (if ma then Some (length s') else None) None [] s'"
  have rel: "rel_option match_variant ?m ?m'"
    unfolding len by (rule re_match_variant [OF blind v]) simp_all
  show ?case
  proof (cases ?m)
    case None
    with rel have none': "?m' = None" by (cases ?m') auto
    note u = scan_None [OF None] and u' = scan_None [OF none']
    show ?thesis
    proof (cases s)
      case Nil
      with v have n': "s' = []" by simp
      show ?thesis unfolding Nil n' by (rule list_all2_refl) (rule piece_variant_refl)
    next
      case (Cons c t)
      with v obtain d t' where s': "s' = d # t'" and cd: "case_variant c d"
        and tt: "list_all2 case_variant t t'"
        by (auto simp: list_all2_Cons1)
      have "2 * length t + (if False then 0 else 1) < 2 * length s + (if ma then 0 else 1)"
        using Cons by simp
      from less.hyps [OF this tt]
      have ih: "list_all2 piece_variant (scan db rx False t) (scan db rx False t')" .
      have e: "scan db rx ma s = Gap c # scan db rx False t"
        using u by (simp add: Cons)
      have e': "scan db rx ma s' = Gap d # scan db rx False t'"
        using u' by (simp add: s')
      show ?thesis unfolding e e' using cd ih by simp
    qed
  next
    case (Some r)
    with rel obtain r' where some': "?m' = Some r'" and rr: "match_variant r r'"
      by (cases ?m') auto
    obtain gs rest where r: "r = (gs, rest)" by (cases r)
    obtain gs' rest' where r': "r' = (gs', rest')" by (cases r')
    from rr r r' have g: "list_all2 (list_all2 case_variant) gs gs'"
      and rs: "list_all2 case_variant rest rest'"
      by (simp_all add: match_variant_def)
    from rs have lr: "length rest' = length rest" by (simp add: list_all2_lengthD)
    let ?n = "length s - length rest"
    note u = scan_Some [OF Some [unfolded r]]
      and u' = scan_Some [OF some' [unfolded r'], unfolded len lr]
    show ?thesis
    proof (cases "0 < ?n")
      case True
      then have "2 * length (drop ?n s) + (if False then 0 else 1)
          < 2 * length s + (if ma then 0 else 1)"
        by auto
      from less.hyps [OF this list_all2_dropI [OF v]]
      have ih: "list_all2 piece_variant
          (scan db rx False (drop ?n s)) (scan db rx False (drop ?n s'))" .
      have e: "scan db rx ma s = Hit (take ?n s) gs # scan db rx False (drop ?n s)"
        using u True by simp
      have e': "scan db rx ma s' = Hit (take ?n s') gs' # scan db rx False (drop ?n s')"
        using u' True by simp
      show ?thesis
        unfolding e e' using ih g list_all2_takeI [OF v, of ?n] by simp
    next
      case False
      show ?thesis
      proof (cases ma)
        case True
        have e: "scan db rx ma s = [Hit [] gs]"
          using u False True by simp
        have e': "scan db rx ma s' = [Hit [] gs']"
          using u' False True by simp
        show ?thesis unfolding e e' using g by simp
      next
        case nma: False
        then have "2 * length s + (if True then 0 else 1) < 2 * length s + (if ma then 0 else 1)"
          by simp
        from less.hyps [OF this v]
        have ih: "list_all2 piece_variant (scan db rx True s) (scan db rx True s')" .
        have e: "scan db rx ma s = Hit [] gs # scan db rx True s"
          using u False nma by simp
        have e': "scan db rx ma s' = Hit [] gs' # scan db rx True s'"
          using u' False nma by simp
        show ?thesis unfolding e e' using g ih by simp
      qed
    qed
  qed
qed


lemma finditer_variant:
  assumes "list_all (case_blind (rx_icase rx)) (rx_toks rx)" and "list_all2 case_variant s s'"
  shows "list_all2 (\<lambda>m m'. list_all2 (list_all2 case_variant) (snd m) (snd m'))
           (finditer db rx s) (finditer db rx s')"
proof -
  have "list_all2 (\<lambda>m m'. list_all2 (list_all2 case_variant) (snd m) (snd m'))
      (concat (map (\<lambda>p. case p of Gap c \<Rightarrow> [] | Hit m gs \<Rightarrow> [(m, gs)]) ps))
      (concat (map (\<lambda>p. case p of Gap c \<Rightarrow> [] | Hit m gs \<Rightarrow> [(m, gs)]) ps'))"
    if "list_all2 piece_variant ps ps'" for ps ps'
    using that
  proof (induction rule: list_all2_induct)
    case Nil
    show ?case by simp
  next
    case (Cons p ps p' ps')
    then show ?case by (cases p; cases p') simp_all
  qed
  with scan_variant [OF assms, of db False] show ?thesis
    by (simp add: finditer_def)
qed

lemma group_variant:
  assumes "list_all2 (list_all2 case_variant) gs gs'"
  shows "list_all2 case_variant (group gs i) (group gs' i)"
proof -
  have "length gs = length gs'" using assms by (rule list_all2_lengthD)
  moreover have "list_all2 case_variant (gs ! (i - 1)) (gs' ! (i - 1))" if "i - 1 < length gs"
    using assms that by (rule list_all2_nthD)
  ultimately show ?thesis by (auto simp: group_def)
qed

lemma expand_variant:
  assumes "list_all2 (list_all2 case_variant) gs gs'"
  shows "list_all2 case_variant (expand tpl gs) (expand tpl gs')"
proof (induction tpl)
  case Nil
  show ?case by (simp add: expand_def)
next
  case (Cons t tpl)
  have "list_all2 case_variant
      (case t of TLit l \<Rightarrow> l | TGrp i \<Rightarrow> group gs i) (case t of TLit l \<Rightarrow> l | TGrp i \<Rightarrow> group gs' i)"
    using group_variant [OF assms] by (cases t) (simp_all add: list_all2_refl)
  with Cons show ?case
    by (simp add: expand_def list_all2_appendI)
qed

lemma re_sub_variant:
  assumes "list_all (case_blind (rx_icase rx)) (rx_toks rx)" and "list_all2 case_variant s s'"
  shows "list_all2 case_variant (re_sub db rx tpl s) (re_sub db rx tpl s')"
proof -
  have "list_all2 case_variant
      (concat (map (\<lambda>p. case p of Gap c \<Rightarrow> [c] | Hit m gs \<Rightarrow> expand tpl gs) ps))
      (concat (map (\<lambda>p. case p of Gap c \<Rightarrow> [c] | Hit m gs \<Rightarrow> expand tpl gs) ps'))"
    if "list_all2 piece_variant ps ps'" for ps ps'
    using that
  proof (induction rule: list_all2_induct)
    case Nil
    show ?case by simp
  next
    case (Cons p ps p' ps')
    then show ?case
      by (cases p; cases p') (simp_all add: list_all2_appendI expand_variant)
  qed
  with scan_variant [OF assms, of db False] show ?thesis
    by (simp add: re_sub_def)
qed

lemma py_upper_variant: "list_all2 case_variant g g' \<Longrightarrow> py_upper db g = py_upper db g'"
  by (induction rule: list_all2_induct) (simp_all add: py_upper_def variant_upper)

lemma rule_hits_variant:
  assumes "list_all (case_blind (rx_icase rx)) (rx_toks rx)" and "list_all2 case_variant s s'"
  shows "rule_hits db l rx s = rule_hits db l rx s'"
proof -
  have "map (\<lambda>m. (l, py_upper db (group (snd m) 1))) ms =
        map (\<lambda>m. (l, py_upper db (group (snd m) 1))) ms'"
    if "list_all2 (\<lambda>m m'. list_all2 (list_all2 case_variant) (snd m) (snd m')) ms ms'" for ms ms'
    using that
  proof (induction rule: list_all2_induct)
    case Nil
    show ?case by simp
  next
    case (Cons m ms m' ms')
    have "py_upper db (group (snd m) 1) = py_upper db (group (snd m') 1)"
      using Cons.hyps(1) by (intro py_upper_variant group_variant)
    with Cons show ?case by simp
  qed
  with finditer_variant [OF assms, of db] show ?thesis
    by (simp add: rule_hits_def)
qed

lemma dehyphen_blind: "list_all (case_blind (rx_icase dehyphen_rx)) (rx_toks dehyphen_rx)"
  by (simp add: dehyphen_rx_def one_of_def lit_def ascii_letter_def)

lemma compiled_blind:
  "(l, rx) \<in> set COMPILED \<Longrightarrow> list_all (case_blind (rx_icase rx)) (rx_toks rx)"
  by (auto simp: COMPILED_def PATTERNS_def one_of_def lit_def opt_def at_least_def)

lemma candidates_variant:
  assumes "list_all2 case_variant s s'"
  shows "candidates db s = candidates db s'"
proof -
  have d: "list_all2 case_variant (dehyphen db s) (dehyphen db s')"
    unfolding dehyphen_def using dehyphen_blind assms by (rule re_sub_variant)
  have "rule_hits db l rx s @ rule_hits db l rx (dehyphen db s) =
        rule_hits db l rx s' @ rule_hits db l rx (dehyphen db s')"
    if "(l, rx) \<in> set COMPILED" for l rx
    using rule_hits_variant [OF compiled_blind [OF that] assms]
      rule_hits_variant [OF compiled_blind [OF that] d]
    by simp
  then show ?thesis
    unfolding candidates_def
    by (intro arg_cong [where f = concat] map_cong) auto
qed

lemma find_accessions_variant:
  "list_all2 case_variant s s' \<Longrightarrow> find_accessions db s' = find_accessions db s"
  by (simp add: find_accessions_first_occ candidates_variant)

text \<open>
  C4. The result never holds a (label, identifier) pair twice; every hit is the label
  of a rule, compiled case-insensitively, with the upper-cased group of one of its
  matches on the raw or on the dehyphenated text; changing the case of ASCII letters
  anywhere in the text does not change the result; and the text
  \<open>GSE1234 gse1234 GSE1234\<close> yields the single hit (GEO Series, GSE1234).
\<close>

theorem hits_unique:
  "distinct (find_accessions db txt) \<and>
   (\<forall>h\<in>set (find_accessions db txt).
      \<exists>label rx m. (label, rx) \<in> set COMPILED \<and> rx_icase rx \<and>
        (m \<in> set (finditer db rx txt) \<or> m \<in> set (finditer db rx (dehyphen db txt))) \<and>
        h = (label, py_upper db (group (snd m) 1))) \<and>
   (\<forall>txt'. list_all2 case_variant txt txt' \<longrightarrow> find_accessions db txt' = find_accessions db txt) \<and>
   find_accessions db (asc ''GSE1234 gse1234 GSE1234'') = [(asc ''GEO Series'', asc ''GSE1234'')]"
proof (intro conjI ballI allI impI)
  show "distinct (find_accessions db txt)"
    by (simp add: find_accessions_first_occ)
next
  fix h
  assume "h \<in> set (find_accessions db txt)"
  then have "h \<in> set (candidates db txt)"
    by (simp add: find_accessions_first_occ)
  then obtain label rx where r: "(label, rx) \<in> set COMPILED"
    and h: "h \<in> set (rule_hits db label rx txt) \<or> h \<in> set (rule_hits db label rx (dehyphen db txt))"
    by (auto simp: candidates_def)
  from r have ic: "rx_icase rx"
    by (auto simp: COMPILED_def)
  from h obtain m where "m \<in> set (finditer db rx txt) \<or> m \<in> set (finditer db rx (dehyphen db txt))"
    and "h = (label, py_upper db (group (snd m) 1))"
    by (auto simp: rule_hits_def)
  with r ic show "\<exists>label rx m. (label, rx) \<in> set COMPILED \<and> rx_icase rx \<and>
        (m \<in> set (finditer db rx txt) \<or> m \<in> set (finditer db rx (dehyphen db txt))) \<and>
        h = (label, py_upper db (group (snd m) 1))"
    by blast
next
  fix txt'
  assume "list_all2 case_variant txt txt'"
  then show "find_accessions db txt' = find_accessions db txt"
    by (rule find_accessions_variant)
next
  show "find_accessions db (asc ''GSE1234 gse1234 GSE1234'') = [(asc ''GEO Series'', asc ''GSE1234'')]"
    by (simp add: accession_defs regex_defs char_class_defs cong: first_some_weak_cong)
qed

theorem hits_unique_witness:
  "list_all2 case_variant (asc ''GSE1234 gse1234 GSE1234'') (asc ''gse1234 GSE1234 gSe1234'') \<and>
   find_accessions ucd_ascii (asc ''gse1234 GSE1234 gSe1234'') =
     [(asc ''GEO Series'', asc ''GSE1234'')] \<and>
   (asc ''GEO Series'', asc ''GSE1234'') \<in> set (find_accessions ucd_ascii (asc ''GSE1234 gse1234 GSE1234'')) \<and>
   distinct (find_accessions ucd_ascii (asc ''GSE1234 gse1234 GSE1234''))"
proof -
  have v: "list_all2 case_variant (asc ''GSE1234 gse1234 GSE1234'') (asc ''gse1234 GSE1234 gSe1234'')"
    by (simp add: asc_def case_variant_def ascii_letter_def ci_fold_def)
  show ?thesis
    using v hits_unique [of ucd_ascii "asc ''GSE1234 gse1234 GSE1234''"]
    by simp
qed

section \<open>The dehyphenation\<close>

lemma re_match_one:
  "re_match (Rep cs (Suc 0) (Some (Suc 0)) # ts) db ic ml ban cur caps s =
     (case s of
        [] \<Rightarrow> None
      | c # s' \<Rightarrow>
          if in_set db ic cs c then re_match ts db ic ml ban (map_option (\<lambda>g. g @ [c]) cur) caps s'
          else None)"
proof (cases s)
  case Nil
  then show ?thesis by (simp add: Let_def)
next
  case (Cons c s')
  show ?thesis
  proof (cases "in_set db ic cs c")
    case True
    with Cons have "min (length (takeWhile (in_set db ic cs) s)) (Suc 0) = Suc 0"
      by simp
    with True Cons show ?thesis
      by (simp add: Let_def split: option.splits)
  next
    case False
    with Cons show ?thesis by (simp add: Let_def)
  qed
qed

lemma re_match_Open:
  "re_match (Open # ts) db ic ml ban cur caps s = re_match ts db ic ml ban (Some []) caps s"
  by simp

lemma re_match_Close:
  "re_match (Close # ts) db ic ml ban cur caps s =
     re_match ts db ic ml ban None (caps @ [case cur of None \<Rightarrow> [] | Some g \<Rightarrow> g]) s"
  by simp

lemma dehyphen_rx_sel:
  "rx_toks dehyphen_rx =
     [Open, Rep [Word] (Suc 0) (Some (Suc 0)), Close, Rep [Chr 45] (Suc 0) (Some (Suc 0)),
      Rep [Chr 10] (Suc 0) (Some (Suc 0)), Open, Rep [Word] (Suc 0) (Some (Suc 0)), Close]"
  "rx_icase dehyphen_rx = False" "rx_mline dehyphen_rx = True"
  by (simp_all add: dehyphen_rx_def one_of_def lit_def)

lemma in_set_Word [simp]: "in_set db ic [Word] c = is_word db c"
  by (simp add: in_set_def)

lemma in_set_Chr [simp]: "in_set db False [Chr k] c \<longleftrightarrow> c = k"
  by (simp add: in_set_def)

lemma match_dehyphen_hit:
  "is_word db a \<Longrightarrow> is_word db b \<Longrightarrow>
   re_match (rx_toks dehyphen_rx) db False True None None [] (a # 45 # 10 # b # r) =
     Some ([[a], [b]], r)"
  by (simp add: dehyphen_rx_sel re_match_one re_match_Open re_match_Close del: re_match.simps(2))

lemma match_dehyphen_miss:
  "\<not> (\<exists>a b r. s = a # 45 # 10 # b # r \<and> is_word db a \<and> is_word db b) \<Longrightarrow>
   re_match (rx_toks dehyphen_rx) db False True None None [] s = None"
  by (auto simp: dehyphen_rx_sel re_match_one re_match_Open re_match_Close
      simp del: re_match.simps(2) split: list.splits)

lemma scan_dehyphen_hit:
  assumes "is_word db a" "is_word db b"
  shows "scan db dehyphen_rx False (a # 45 # 10 # b # r) =
     Hit [a, 45, 10, b] [[a], [b]] # scan db dehyphen_rx False r"
  by (subst scan.simps)
     (simp add: match_dehyphen_hit [OF assms] dehyphen_rx_sel(2,3) Let_def del: re_match.simps)

lemma scan_dehyphen_gap:
  assumes "\<not> (\<exists>a b r. c # s = a # 45 # 10 # b # r \<and> is_word db a \<and> is_word db b)"
  shows "scan db dehyphen_rx False (c # s) = Gap c # scan db dehyphen_rx False s"
  by (subst scan.simps)
     (simp add: match_dehyphen_miss [OF assms] dehyphen_rx_sel(2,3) del: re_match.simps)

lemma scan_dehyphen_Nil: "scan db dehyphen_rx False [] = []"
  by (subst scan.simps)
     (simp add: match_dehyphen_miss dehyphen_rx_sel(2,3) del: re_match.simps)

lemma dehyphen_Nil: "dehyphen db [] = []"
  by (simp add: dehyphen_def re_sub_def scan_dehyphen_Nil)

lemma dehyphen_hit:
  "is_word db a \<Longrightarrow> is_word db b \<Longrightarrow>
   dehyphen db (a # 45 # 10 # b # r) = a # b # dehyphen db r"
  by (simp add: dehyphen_def re_sub_def scan_dehyphen_hit expand_def group_def)

lemma dehyphen_gap:
  "\<not> (\<exists>a b r. c # s = a # 45 # 10 # b # r \<and> is_word db a \<and> is_word db b) \<Longrightarrow>
   dehyphen db (c # s) = c # dehyphen db s"
  by (simp add: dehyphen_def re_sub_def scan_dehyphen_gap)

lemma dehyphen_collapse_wraps: "dehyphen db s = collapse_wraps db s"
proof (induction db s rule: collapse_wraps.induct)
  case (1 db a h n b r)
  show ?case
  proof (cases "is_word db a \<and> h = 45 \<and> n = 10 \<and> is_word db b")
    case True
    with 1 show ?thesis by (simp add: dehyphen_hit)
  next
    case False
    then have "dehyphen db (a # h # n # b # r) = a # dehyphen db (h # n # b # r)"
      by (intro dehyphen_gap) auto
    with False 1 show ?thesis by auto
  qed
qed (simp_all add: dehyphen_gap dehyphen_Nil)

lemma deletes_hl_collapse_wraps: "deletes_hl s (collapse_wraps db s)"
  by (induction db s rule: collapse_wraps.induct) (auto intro: deletes_hl.intros)

lemma collapse_wraps_id:
  "list_all (\<lambda>(c, d). \<not> (c = 45 \<and> d = 10)) (zip s (tl s)) \<Longrightarrow> collapse_wraps db s = s"
  by (induction db s rule: collapse_wraps.induct) auto


text \<open>
  What the substitution does: it reads the text from left to right, and where a word
  character, a hyphen, a line break and a word character follow each other it keeps the
  two word characters and goes on behind them. The result is the text without some of
  its hyphen, line break pairs: no other character is removed or changed, and a text in
  which no hyphen is followed by a line break is unchanged. The identifier split as
  \<open>PRJEB12-\<close>, line break, \<open>345\<close> is found as PRJEB12345, and \<open>PRJEB12-345\<close> gives no
  hit.
\<close>

lemma dehyphen_scan:
  "dehyphen db txt = collapse_wraps db txt \<and>
   deletes_hl txt (dehyphen db txt) \<and>
   (list_all (\<lambda>(c, d). \<not> (c = 45 \<and> d = 10)) (zip txt (tl txt)) \<longrightarrow> dehyphen db txt = txt) \<and>
   find_accessions db (asc ''PRJEB12-'' @ [10] @ asc ''345'') =
     [(asc ''ENA Project'', asc ''PRJEB12345'')] \<and>
   find_accessions db (asc ''PRJEB12-345'') = []"
proof (intro conjI impI)
  show "dehyphen db txt = collapse_wraps db txt"
    by (rule dehyphen_collapse_wraps)
  show "deletes_hl txt (dehyphen db txt)"
    by (simp add: dehyphen_collapse_wraps deletes_hl_collapse_wraps)
  show "dehyphen db txt = txt"
    if "list_all (\<lambda>(c, d). \<not> (c = 45 \<and> d = 10)) (zip txt (tl txt))"
    using that by (simp add: dehyphen_collapse_wraps collapse_wraps_id)
  show "find_accessions db (asc ''PRJEB12-'' @ [10] @ asc ''345'') =
     [(asc ''ENA Project'', asc ''PRJEB12345'')]"
    by (simp add: accession_defs regex_defs char_class_defs cong: first_some_weak_cong)
  show "find_accessions db (asc ''PRJEB12-345'') = []"
    by (simp add: accession_defs regex_defs char_class_defs cong: first_some_weak_cong)
qed

lemma dehyphen_scan_example:
  "list_all (\<lambda>(c, d). \<not> (c = 45 \<and> d = 10)) (zip (asc ''well-known'') (tl (asc ''well-known''))) \<and>
   dehyphen ucd_ascii (asc ''well-known'') = asc ''well-known''"
proof -
  have h: "list_all (\<lambda>(c, d). \<not> (c = 45 \<and> d = 10)) (zip (asc ''well-known'') (tl (asc ''well-known'')))"
    by (simp add: asc_def)
  with dehyphen_scan [of ucd_ascii "asc ''well-known''"] show ?thesis
    by blast
qed

text \<open>
  C6. The dehyphenation should collapse every occurrence of word character, hyphen,
  line break, word character, so that an identifier split by line wraps is found; the
  program's own comment gives the purpose as \<open>to catch line breaks splitting IDs\<close>. The
  pattern of the substitution consumes both word characters of an occurrence, so of
  two occurrences that share a word character only the first is collapsed: in
  \<open>a-\<close>, line break, \<open>b-\<close>, line break, \<open>c\<close> the occurrence \<open>b-\<close>, line break, \<open>c\<close>
  stays, and the identifier PRJEB12345 wrapped as \<open>PRJEB1-\<close>, \<open>2-\<close>, \<open>345\<close> is not
  found, although it is found once both wraps are collapsed.
\<close>

theorem dehyphen_overlap_missed:
  "dehyphen ucd_ascii (asc ''a-'' @ [10] @ asc ''b-'' @ [10] @ asc ''c'') =
     asc ''ab-'' @ [10] @ asc ''c'' \<and>
   dehyphen ucd_ascii (asc ''PRJEB1-'' @ [10] @ asc ''2-'' @ [10] @ asc ''345'') =
     asc ''PRJEB12-'' @ [10] @ asc ''345'' \<and>
   find_accessions ucd_ascii (asc ''PRJEB1-'' @ [10] @ asc ''2-'' @ [10] @ asc ''345'') = [] \<and>
   find_accessions ucd_ascii (asc ''PRJEB12345'') = [(asc ''ENA Project'', asc ''PRJEB12345'')]"
  by (simp add: accession_defs regex_defs char_class_defs cong: first_some_weak_cong)

section \<open>The batch loop: one record per document, failures isolated\<close>

lemma empty_batch_sel:
  "rows empty_batch = []" "jsonl_records empty_batch = []" "total_matches empty_batch = 0"
  by (simp_all add: empty_batch_def)

lemma try_body_exn_indep:
  "snd (try_body db wj mv st p) = snd (try_body db wj' mv st' p)"
  by (simp add: try_body_def Let_def split: sum.splits)


lemma process_pdf_jsonl:
  "jsonl_records (process_pdf db wj mv st p) =
     jsonl_records st @ jsonl_records (process_pdf db wj mv empty_batch p)"
  by (simp add: process_pdf_def try_body_def empty_batch_def Let_def
      split: sum.splits option.splits)


lemma foldl_process_jsonl:
  "jsonl_records (foldl (process_pdf db wj mv) st ps) =
     jsonl_records st @ concat (map (\<lambda>p. jsonl_records (process_pdf db wj mv empty_batch p)) ps)"
proof (induction ps arbitrary: st)
  case Nil
  show ?case by simp
next
  case (Cons p ps)
  show ?case
    by (simp add: Cons [of "process_pdf db wj mv st p"] process_pdf_jsonl [of db wj mv st p])
qed




text \<open>
  When no relocation fails, every document has exactly one record, in the order of the
  documents, and at least one row.
\<close>

lemma one_record_per_pdf:
  assumes "mv \<longrightarrow> (\<forall>p\<in>set pdfs. pdf_move p = None)"
  shows "map j_pdf_file (jsonl_records (run_batch db True mv pdfs)) = map pdf_name pdfs \<and>
         (\<forall>p\<in>set pdfs. rows (process_pdf db True mv empty_batch p) \<noteq> [])"
proof -
  have one: "map j_pdf_file (jsonl_records (process_pdf db True mv empty_batch p)) = [pdf_name p]"
    if "mv \<longrightarrow> pdf_move p = None" for p
    using that
    by (auto simp: process_pdf_def try_body_def empty_batch_def error_rec_def Let_def
        split: sum.splits)
  have some: "rows (process_pdf db True mv empty_batch p) \<noteq> []" for p
    by (auto simp: process_pdf_def try_body_def empty_batch_def error_row_def Let_def
        split: sum.splits option.splits)
  have "map j_pdf_file (concat (map (\<lambda>p. jsonl_records (process_pdf db True mv empty_batch p)) ps))
      = map pdf_name ps" if "mv \<longrightarrow> (\<forall>p\<in>set ps. pdf_move p = None)" for ps
    using that by (induction ps) (simp_all add: one)
  with assms some show ?thesis
    by (simp add: run_batch_def foldl_process_jsonl [of db True mv empty_batch pdfs] empty_batch_sel)
qed

lemmas batch_defs =
  run_batch_def process_pdf_def try_body_def empty_batch_def error_row_def error_rec_def
  extract_pdf_text_def

text \<open>
  C1. Every input document should yield exactly one record, also when the relocation
  of a processed file fails. The program appends the record of the document before it
  moves the file, inside the same \<open>try\<close>; when the move raises, the handler appends an
  error record as well, so the document has two records: for one file with one hit and
  a move that raises \<open>PermissionError\<close> the record-oriented output is the following.
\<close>

theorem relocation_failure_second_record:
  "jsonl_records
     (run_batch ucd_ascii True True
        [\<lparr>pdf_name = asc ''a.pdf'', pdf_stem = asc ''a'',
          pdf_open = Inr \<lparr>doc_title = Some (asc ''Paper One''),
                           doc_pages = [\<lparr>page_dict = Inr [], page_plain = Inr (asc ''GSE1234'')\<rparr>]\<rparr>,
          pdf_move = Some \<lparr>exn_class = asc ''PermissionError'', exn_msg = asc ''denied''\<rparr>\<rparr>]) =
     [\<lparr>j_pdf_file = asc ''a.pdf'', j_paper_title = asc ''Paper One'',
       j_accessions = [(asc ''GEO Series'', asc ''GSE1234'')], j_error = None\<rparr>,
      \<lparr>j_pdf_file = asc ''a.pdf'', j_paper_title = asc ''ERROR: PermissionError'',
       j_accessions = [], j_error = Some (asc ''denied'')\<rparr>] \<and>
   map r_paper_title
     (rows
        (run_batch ucd_ascii True True
           [\<lparr>pdf_name = asc ''a.pdf'', pdf_stem = asc ''a'',
             pdf_open = Inr \<lparr>doc_title = Some (asc ''Paper One''),
                              doc_pages = [\<lparr>page_dict = Inr [], page_plain = Inr (asc ''GSE1234'')\<rparr>]\<rparr>,
             pdf_move = Some \<lparr>exn_class = asc ''PermissionError'', exn_msg = asc ''denied''\<rparr>\<rparr>])) =
     [asc ''Paper One'', asc ''ERROR: PermissionError'']"
  by (simp add: batch_defs cascade_defs accession_defs regex_defs char_class_defs title_defs
      cong: first_some_weak_cong)


end
